theory Spec2Isabelle
  imports Main "HOL-Library.Word" "HOL-Library.AList"
begin

unbundle bit_operations_syntax

section \<open>Errors\<close>

text \<open>
  Every \<open>throw\<close>, \<open>nullthrows\<close> and failed \<open>assert\<close>/\<open>invariant\<close> of the sources is a
  value of this type. \<open>OutOfFuel\<close> is not an error of the sources: it is what a model of a
  loop or of a recursion returns when the bound given to it is used up.
\<close>

datatype error =
    EdgeTypeNotAllowed
  | FromNodeNotFound nat
  | ToNodeNotFound nat
  | EdgeNotFound nat nat
  | DoesNotHaveNode nat
  | StartNodeRequired
  | RootNodeRequired
  | AssertionFailed
  | NullThrows
  | TypeError
  | OutOfFuel

section \<open>The asset flags (Asset.js, \<open>MutableAsset\<close>)\<close>

text \<open>
  \<open>asset.value.flags\<close> is a bit set; JavaScript's \<open>|=\<close> and \<open>&\<close> work on 32-bit
  integers. The constants of \<open>AssetFlags\<close> come from \<open>@parcel/rust\<close>, which is not among
  the sources, so the flag bit is a parameter of the accessors below.
\<close>

type_synonym source_location = "string \<times> (nat \<times> nat) \<times> (nat \<times> nat)"

text \<open>An entry \<open>{exported, local, flags, loc?}\<close> of a symbol table; symbols are interned
  integers.\<close>

record symbol_decl =
  exported :: nat
  local :: nat
  sym_flags :: "32 word"
  loc :: "source_location option"

record asset_value =
  symbols :: "symbol_decl list option"
  filePath :: string
  flags :: "32 word"
  bundleBehavior :: string
  assetType :: string

definition get_flag :: "32 word \<Rightarrow> asset_value \<Rightarrow> bool" where
  \<comment> \<open>\<open>Boolean(this.#asset.value.flags & FLAG)\<close>\<close>
  "get_flag flag v = (flags v AND flag \<noteq> 0)"

definition get_isBundleSplittable :: "32 word \<Rightarrow> asset_value \<Rightarrow> bool" where
  "get_isBundleSplittable IS_BUNDLE_SPLITTABLE v = get_flag IS_BUNDLE_SPLITTABLE v"

definition set_isBundleSplittable :: "32 word \<Rightarrow> bool \<Rightarrow> asset_value \<Rightarrow> asset_value" where
  \<comment> \<open>\<open>this.#asset.value.flags |= AssetFlags.IS_BUNDLE_SPLITTABLE\<close>; the argument is not read\<close>
  "set_isBundleSplittable IS_BUNDLE_SPLITTABLE isBundleSplittable v =
     v\<lparr>flags := flags v OR IS_BUNDLE_SPLITTABLE\<rparr>"

definition get_sideEffects :: "32 word \<Rightarrow> asset_value \<Rightarrow> bool" where
  "get_sideEffects SIDE_EFFECTS v = get_flag SIDE_EFFECTS v"

definition set_sideEffects :: "32 word \<Rightarrow> bool \<Rightarrow> asset_value \<Rightarrow> asset_value" where
  \<comment> \<open>\<open>this.#asset.value.flags |= AssetFlags.SIDE_EFFECTS\<close>; the argument is not read\<close>
  "set_sideEffects SIDE_EFFECTS sideEffects v = v\<lparr>flags := flags v OR SIDE_EFFECTS\<rparr>"

section \<open>Graph (Graph.js)\<close>

subsection \<open>The adjacency list\<close>

text \<open>
  Modelled from the spec: \<open>AdjacencyList\<close> is not among the sources. The spec (4.1) gives
  its contract: a store of typed directed edges \<open>(from, to, type)\<close>, at most one per triple,
  whose inbound and outbound neighbours are iterated in insertion order. The model keeps the
  live edges as a list in insertion order; the packed arrays and the hash table are not
  modelled.
\<close>

type_synonym edge = "nat \<times> nat \<times> nat"

text \<open>The \<open>type\<close> argument of the queries: one type, a list of types, or \<open>ALL_EDGE_TYPES\<close>.\<close>

datatype type_spec = OneType nat | TypeList "nat list" | ALL_EDGE_TYPES

fun type_matches :: "type_spec \<Rightarrow> nat \<Rightarrow> bool" where
  "type_matches (OneType t) ty = (ty = t)"
| "type_matches (TypeList ts) ty = (ty \<in> set ts)"
| "type_matches ALL_EDGE_TYPES ty = True"

text \<open>Modelled from the spec: de-duplication that keeps the first occurrence, as a JS \<open>Set\<close> does.\<close>

fun dedupe :: "'a list \<Rightarrow> 'a list" where
  "dedupe [] = []"
| "dedupe (x # xs) = x # dedupe (filter (\<lambda>y. y \<noteq> x) xs)"

text \<open>Modelled from the spec: \<open>AdjacencyList.hasEdge\<close>.\<close>

definition al_hasEdge :: "edge list \<Rightarrow> nat \<Rightarrow> nat \<Rightarrow> nat \<Rightarrow> bool" where
  "al_hasEdge es from to ty = ((from, to, ty) \<in> set es)"

text \<open>Modelled from the spec: \<open>AdjacencyList.addEdge\<close>; the boolean is \<open>false\<close> when the
  edge was already there.\<close>

definition al_addEdge :: "edge list \<Rightarrow> nat \<Rightarrow> nat \<Rightarrow> nat \<Rightarrow> bool \<times> edge list" where
  "al_addEdge es from to ty =
     (if (from, to, ty) \<in> set es then (False, es) else (True, es @ [(from, to, ty)]))"

text \<open>Modelled from the spec: \<open>AdjacencyList.removeEdge\<close>, called only after \<open>hasEdge\<close>.\<close>

definition al_removeEdge :: "edge list \<Rightarrow> nat \<Rightarrow> nat \<Rightarrow> nat \<Rightarrow> edge list" where
  "al_removeEdge es from to ty = filter (\<lambda>e. e \<noteq> (from, to, ty)) es"

text \<open>Modelled from the spec: \<open>AdjacencyList.getNodesConnectedFrom\<close> and
  \<open>getNodesConnectedTo\<close>.\<close>

definition al_getNodesConnectedFrom :: "edge list \<Rightarrow> nat \<Rightarrow> type_spec \<Rightarrow> nat list" where
  "al_getNodesConnectedFrom es n ts =
     dedupe (map (\<lambda>(f, t, ty). t) (filter (\<lambda>(f, t, ty). f = n \<and> type_matches ts ty) es))"

definition al_getNodesConnectedTo :: "edge list \<Rightarrow> nat \<Rightarrow> type_spec \<Rightarrow> nat list" where
  "al_getNodesConnectedTo es n ts =
     dedupe (map (\<lambda>(f, t, ty). f) (filter (\<lambda>(f, t, ty). t = n \<and> type_matches ts ty) es))"

text \<open>Modelled from the spec: \<open>AdjacencyList.getInboundEdgesByType\<close> (pairs \<open>(type, from)\<close>)
  and \<open>getOutboundEdgesByType\<close> (pairs \<open>(type, to)\<close>).\<close>

definition al_getInboundEdgesByType :: "edge list \<Rightarrow> nat \<Rightarrow> (nat \<times> nat) list" where
  "al_getInboundEdgesByType es n =
     map (\<lambda>(f, t, ty). (ty, f)) (filter (\<lambda>(f, t, ty). t = n) es)"

definition al_getOutboundEdgesByType :: "edge list \<Rightarrow> nat \<Rightarrow> (nat \<times> nat) list" where
  "al_getOutboundEdgesByType es n =
     map (\<lambda>(f, t, ty). (ty, t)) (filter (\<lambda>(f, t, ty). f = n) es)"

subsection \<open>The graph\<close>

text \<open>
  \<open>nodes\<close> is a JS \<open>Map\<close> from node ids to node objects: an association list in insertion
  order, read with \<open>map_of\<close>. \<open>rootNodeId\<close> is \<open>None\<close> for \<open>null\<close>/\<open>undefined\<close>.
\<close>

record 'n graph =
  nodes :: "(nat \<times> 'n) list"
  adjacencyList :: "edge list"
  rootNodeId :: "nat option"
  nextNodeId :: nat

definition hasNode :: "('n, 'z) graph_scheme \<Rightarrow> nat \<Rightarrow> bool" where
  "hasNode g n = (map_of (nodes g) n \<noteq> None)"

definition getNode :: "('n, 'z) graph_scheme \<Rightarrow> nat \<Rightarrow> 'n option" where
  "getNode g n = map_of (nodes g) n"

definition assertHasNodeId :: "('n, 'z) graph_scheme \<Rightarrow> nat \<Rightarrow> error + unit" where
  "assertHasNodeId g n = (if hasNode g n then Inr () else Inl (DoesNotHaveNode n))"

text \<open>
  \<open>addEdge\<close> tests \<open>!this.getNode(from)\<close> and \<open>!this.getNode(to)\<close>, which hold when the
  map has no such node and also when the node is a value that JS takes for false (\<open>0\<close>,
  \<open>''\<close>, \<open>null\<close>, \<open>false\<close>, \<open>NaN\<close>). The node type is a parameter of the graph;
  \<open>falsy\<close> tells which of its values these are.
\<close>

definition addEdge ::
  "('n \<Rightarrow> bool) \<Rightarrow> ('n, 'z) graph_scheme \<Rightarrow> nat \<Rightarrow> nat \<Rightarrow> nat
     \<Rightarrow> error + (bool \<times> ('n, 'z) graph_scheme)" where
  "addEdge falsy g from to ty =
     (if ty = 0 then Inl EdgeTypeNotAllowed
      else if (case getNode g from of None \<Rightarrow> True | Some n \<Rightarrow> falsy n)
      then Inl (FromNodeNotFound from)
      else if (case getNode g to of None \<Rightarrow> True | Some n \<Rightarrow> falsy n)
      then Inl (ToNodeNotFound to)
      else (case al_addEdge (adjacencyList g) from to ty of
              (b, es) \<Rightarrow> Inr (b, g\<lparr>adjacencyList := es\<rparr>)))"

definition hasEdge :: "('n, 'z) graph_scheme \<Rightarrow> nat \<Rightarrow> nat \<Rightarrow> nat \<Rightarrow> bool" where
  "hasEdge g from to ty = al_hasEdge (adjacencyList g) from to ty"

definition getNodeIdsConnectedTo ::
  "('n, 'z) graph_scheme \<Rightarrow> nat \<Rightarrow> type_spec \<Rightarrow> error + nat list" where
  "getNodeIdsConnectedTo g n ts =
     (if hasNode g n then Inr (al_getNodesConnectedTo (adjacencyList g) n ts)
      else Inl (DoesNotHaveNode n))"

definition getNodeIdsConnectedFrom ::
  "('n, 'z) graph_scheme \<Rightarrow> nat \<Rightarrow> type_spec \<Rightarrow> error + nat list" where
  "getNodeIdsConnectedFrom g n ts =
     (if hasNode g n then Inr (al_getNodesConnectedFrom (adjacencyList g) n ts)
      else Inl (DoesNotHaveNode n))"

subsection \<open>Breadth-first search\<close>

text \<open>
  The visitor of \<open>bfs\<close> is a JS function that may keep state of its own: it takes the node
  id and its state and returns whether it answered \<open>true\<close>, with its new state. The
  \<open>while\<close> loop runs on a bound: one unit per dequeued node.
\<close>

definition enqueue_children :: "nat list \<Rightarrow> nat list \<times> nat list \<Rightarrow> nat list \<times> nat list" where
  \<comment> \<open>\<open>if (!visited.has(child)) { visited.add(child); queue.push(child); }\<close>\<close>
  "enqueue_children children qv =
     fold (\<lambda>child (queue, visited).
             if child \<in> set visited then (queue, visited)
             else (queue @ [child], visited @ [child])) children qv"

fun bfs_loop ::
  "nat \<Rightarrow> ('n, 'z) graph_scheme \<Rightarrow> (nat \<Rightarrow> 'u \<Rightarrow> bool \<times> 'u) \<Rightarrow> nat \<Rightarrow> nat list \<Rightarrow> nat list \<Rightarrow> 'u
     \<Rightarrow> (error + nat option) \<times> 'u" where
  "bfs_loop fuel g visit root [] visited u = (Inr None, u)"
| "bfs_loop 0 g visit root (node # queue) visited u = (Inl OutOfFuel, u)"
| "bfs_loop (Suc fuel) g visit root (node # queue) visited u =
     (case visit root u of
        (stop, u') \<Rightarrow>
          if stop then (Inr (Some node), u')
          else (case getNodeIdsConnectedFrom g node (OneType 1) of
                  Inl e \<Rightarrow> (Inl e, u')
                | Inr children \<Rightarrow>
                    (case enqueue_children children (queue, visited) of
                       (queue', visited') \<Rightarrow> bfs_loop fuel g visit root queue' visited' u')))"

definition bfs ::
  "nat \<Rightarrow> ('n, 'z) graph_scheme \<Rightarrow> (nat \<Rightarrow> 'u \<Rightarrow> bool \<times> 'u) \<Rightarrow> 'u \<Rightarrow> (error + nat option) \<times> 'u" where
  "bfs fuel g visit u =
     (case rootNodeId g of
        None \<Rightarrow> (Inl RootNodeRequired, u)
      | Some root \<Rightarrow> bfs_loop fuel g visit root [root] [root] u)"

text \<open>A graph with the root 0 and one edge to node 1; the node objects are their ids.\<close>

definition two_node_graph :: "nat graph" where
  "two_node_graph =
     \<lparr>nodes = [(0, 0), (1, 1)], adjacencyList = [(0, 1, 1)], rootNodeId = Some 0, nextNodeId = 2\<rparr>"

text \<open>A visitor that answers \<open>true\<close> at node 1 only, and records every id it was called on.\<close>

definition is_one_visitor :: "nat \<Rightarrow> nat list \<Rightarrow> bool \<times> nat list" where
  "is_one_visitor n calls = (n = 1, calls @ [n])"

subsection \<open>Depth-first traversal\<close>

text \<open>
  A callback of the visitor is a JS function \<open>(nodeId, context, actions) => newContext\<close>
  that may call \<open>actions.skipChildren()\<close> and \<open>actions.stop()\<close>, may change the graph it
  is traversing and may keep state of its own (\<open>'u\<close>). Its model takes the node id, the
  context (\<open>None\<close> for \<open>undefined\<close>), the graph and the visitor's state, and returns what it
  returned (\<open>None\<close> for \<open>undefined\<close>), whether it called each action, the graph and the
  state it left. A callback that throws is not modelled.
\<close>

record ('c, 'g, 'u) cb_out =
  returned :: "'c option"
  calledSkipChildren :: bool
  calledStop :: bool
  graphAfter :: 'g
  userAfter :: 'u

type_synonym ('c, 'g, 'u) callback = "nat \<Rightarrow> 'c option \<Rightarrow> 'g \<Rightarrow> 'u \<Rightarrow> ('c, 'g, 'u) cb_out"

text \<open>\<open>visit\<close> is a function (an enter callback) or an object \<open>{enter?, exit?}\<close>.\<close>

datatype ('c, 'g, 'u) visitor =
    VisitFunction "('c, 'g, 'u) callback"
  | VisitObject "('c, 'g, 'u) callback option" "('c, 'g, 'u) callback option"

fun enter_of :: "('c, 'g, 'u) visitor \<Rightarrow> ('c, 'g, 'u) callback option" where
  \<comment> \<open>\<open>typeof visit === 'function' ? visit : visit.enter\<close>\<close>
  "enter_of (VisitFunction f) = Some f"
| "enter_of (VisitObject en ex) = en"

fun exit_of :: "('c, 'g, 'u) visitor \<Rightarrow> ('c, 'g, 'u) callback option" where
  \<comment> \<open>\<open>typeof visit !== 'function' && visit.exit\<close>\<close>
  "exit_of (VisitFunction f) = None"
| "exit_of (VisitObject en ex) = ex"

text \<open>
  The state of one \<open>dfs\<close> call: the graph and the visitor's state, the closure variables
  \<open>visited\<close>, \<open>stopped\<close> and \<open>skipped\<close>, and a log of the callbacks invoked so far, which
  the code does not have and no branch of the model reads. An entry of the log holds which
  callback was invoked, on which node, whether the graph had the node at that moment,
  whether the callback called \<open>stop\<close>, and the context after the callback (its return value
  when defined, the context it was given otherwise).
\<close>

datatype cb_kind = Enter | Exit

record 'c event =
  ev_kind :: cb_kind
  ev_node :: nat
  ev_present :: bool
  ev_stop :: bool
  ev_context :: "'c option"

record ('c, 'g, 'u) walk_state =
  ws_graph :: 'g
  ws_user :: 'u
  visited :: "nat set"
  stopped :: bool
  skipped :: bool
  trace :: "'c event list"

definition call_cb ::
  "cb_kind \<Rightarrow> ('c, ('n, 'z) graph_scheme, 'u) callback \<Rightarrow> nat \<Rightarrow> 'c option
     \<Rightarrow> ('c, ('n, 'z) graph_scheme, 'u) walk_state
     \<Rightarrow> 'c option \<times> ('c, ('n, 'z) graph_scheme, 'u) walk_state" where
  \<comment> \<open>\<open>let newContext = cb(nodeId, context, actions);
       if (typeof newContext !== 'undefined') context = newContext;\<close>\<close>
  "call_cb k cb nodeId context st =
     (let out = cb nodeId context (ws_graph st) (ws_user st);
          context' = (case returned out of None \<Rightarrow> context | Some c \<Rightarrow> Some c)
      in (context',
          st\<lparr>ws_graph := graphAfter out, ws_user := userAfter out,
             skipped := skipped st \<or> calledSkipChildren out,
             stopped := stopped st \<or> calledStop out,
             trace := trace st @ [\<lparr>ev_kind = k, ev_node = nodeId,
                                   ev_present = hasNode (ws_graph st) nodeId,
                                   ev_stop = calledStop out, ev_context = context'\<rparr>]\<rparr>))"

text \<open>
  The loop over the children in \<open>walk\<close>; \<open>w\<close> is the recursive call. The result
  \<open>Inr (Some result)\<close> is the \<open>return result\<close> of the loop body, \<open>Inr None\<close> the end of
  the loop.
\<close>

fun for_children ::
  "(nat \<Rightarrow> 'c option \<Rightarrow> ('c, 'g, 'u) walk_state \<Rightarrow> (error + 'c option) \<times> ('c, 'g, 'u) walk_state)
     \<Rightarrow> nat list \<Rightarrow> 'c option \<Rightarrow> ('c, 'g, 'u) walk_state
     \<Rightarrow> (error + 'c option option) \<times> ('c, 'g, 'u) walk_state" where
  "for_children w [] context st = (Inr None, st)"
| "for_children w (child # rest) context st =
     (if child \<in> visited st then for_children w rest context st
      else (case w child context (st\<lparr>visited := insert child (visited st)\<rparr>) of
              (Inl e, st') \<Rightarrow> (Inl e, st')
            | (Inr result, st') \<Rightarrow>
                if stopped st' then (Inr (Some result), st')
                else for_children w rest context st'))"

text \<open>
  The closure \<open>walk\<close> of \<open>dfs\<close>. The recursion is bounded by its depth: \<open>walk 0\<close> is the
  model's \<open>OutOfFuel\<close>. \<open>getChildren\<close> reads the graph as it is when it is called.
\<close>

primrec walk ::
  "nat \<Rightarrow> ('c, ('n, 'z) graph_scheme, 'u) visitor
     \<Rightarrow> (('n, 'z) graph_scheme \<Rightarrow> nat \<Rightarrow> error + nat list)
     \<Rightarrow> nat \<Rightarrow> 'c option \<Rightarrow> ('c, ('n, 'z) graph_scheme, 'u) walk_state
     \<Rightarrow> (error + 'c option) \<times> ('c, ('n, 'z) graph_scheme, 'u) walk_state" where
  "walk 0 visit getChildren nodeId context st = (Inl OutOfFuel, st)"
| "walk (Suc fuel) visit getChildren nodeId context st =
     (if \<not> hasNode (ws_graph st) nodeId then (Inr None, st)
      else
        (case (case enter_of visit of
                 None \<Rightarrow> (context, st\<lparr>visited := insert nodeId (visited st), skipped := False\<rparr>)
               | Some enter \<Rightarrow>
                   call_cb Enter enter nodeId context
                     (st\<lparr>visited := insert nodeId (visited st), skipped := False\<rparr>)) of
           (context1, st2) \<Rightarrow>
             if skipped st2 then (Inr None, st2)
             else if stopped st2 then (Inr context1, st2)
             else
               (case getChildren (ws_graph st2) nodeId of
                  Inl e \<Rightarrow> (Inl e, st2)
                | Inr children \<Rightarrow>
                    (case for_children (walk fuel visit getChildren) children context1 st2 of
                       (Inl e, st3) \<Rightarrow> (Inl e, st3)
                     | (Inr (Some result), st3) \<Rightarrow> (Inr result, st3)
                     | (Inr None, st3) \<Rightarrow>
                         (case (case exit_of visit of
                                  None \<Rightarrow> (context1, st3)
                                | Some exit \<Rightarrow>
                                    if hasNode (ws_graph st3) nodeId
                                    then call_cb Exit exit nodeId context1 st3
                                    else (context1, st3)) of
                            (context2, st4) \<Rightarrow>
                              if skipped st4 then (Inr None, st4)
                              else if stopped st4 then (Inr context2, st4)
                              else (Inr None, st4))))))"

definition init_walk_state :: "'g \<Rightarrow> 'u \<Rightarrow> ('c, 'g, 'u) walk_state" where
  "init_walk_state g u =
     \<lparr>ws_graph = g, ws_user = u, visited = {}, stopped = False, skipped = False, trace = []\<rparr>"

definition dfs ::
  "nat \<Rightarrow> ('n, 'z) graph_scheme \<Rightarrow> ('c, ('n, 'z) graph_scheme, 'u) visitor \<Rightarrow> nat option
     \<Rightarrow> (('n, 'z) graph_scheme \<Rightarrow> nat \<Rightarrow> error + nat list) \<Rightarrow> 'u
     \<Rightarrow> (error + 'c option) \<times> ('c, ('n, 'z) graph_scheme, 'u) walk_state" where
  "dfs fuel g visit startNodeId getChildren u =
     (case (case startNodeId of Some s \<Rightarrow> Some s | None \<Rightarrow> rootNodeId g) of
        None \<Rightarrow> (Inl StartNodeRequired, init_walk_state g u)
      | Some traversalStartNode \<Rightarrow>
          if \<not> hasNode g traversalStartNode
          then (Inl (DoesNotHaveNode traversalStartNode), init_walk_state g u)
          else walk fuel visit getChildren traversalStartNode None (init_walk_state g u))"

definition traverse ::
  "nat \<Rightarrow> ('n, 'z) graph_scheme \<Rightarrow> ('c, ('n, 'z) graph_scheme, 'u) visitor \<Rightarrow> nat option
     \<Rightarrow> type_spec \<Rightarrow> 'u
     \<Rightarrow> (error + 'c option) \<times> ('c, ('n, 'z) graph_scheme, 'u) walk_state" where
  "traverse fuel g visit startNodeId ts u =
     dfs fuel g visit startNodeId (\<lambda>g' nodeId. getNodeIdsConnectedFrom g' nodeId ts) u"

definition traverseAncestors ::
  "nat \<Rightarrow> ('n, 'z) graph_scheme \<Rightarrow> nat option \<Rightarrow> ('c, ('n, 'z) graph_scheme, 'u) visitor
     \<Rightarrow> type_spec \<Rightarrow> 'u
     \<Rightarrow> (error + 'c option) \<times> ('c, ('n, 'z) graph_scheme, 'u) walk_state" where
  "traverseAncestors fuel g startNodeId visit ts u =
     dfs fuel g visit startNodeId (\<lambda>g' nodeId. getNodeIdsConnectedTo g' nodeId ts) u"

subsection \<open>Orphans, and the removal of edges and nodes\<close>

text \<open>
  The visitor of \<open>isOrphanedNode\<close>; its state is the variable \<open>hasPathToRoot\<close>. It returns
  nothing, and it stops the traversal at the root.
\<close>

definition path_to_root_visitor :: "nat \<Rightarrow> (unit, 'g, bool) visitor" where
  "path_to_root_visitor root =
     VisitFunction (\<lambda>ancestorId context g hasPathToRoot.
       if ancestorId = root
       then \<lparr>returned = None, calledSkipChildren = False, calledStop = True,
             graphAfter = g, userAfter = True\<rparr>
       else \<lparr>returned = None, calledSkipChildren = False, calledStop = False,
             graphAfter = g, userAfter = hasPathToRoot\<rparr>)"

definition isOrphanedNode :: "nat \<Rightarrow> ('n, 'z) graph_scheme \<Rightarrow> nat \<Rightarrow> error + bool" where
  "isOrphanedNode fuel g nodeId =
     (if \<not> hasNode g nodeId then Inl (DoesNotHaveNode nodeId)
      else (case rootNodeId g of
              None \<Rightarrow> Inr (al_getInboundEdgesByType (adjacencyList g) nodeId = [])
            | Some root \<Rightarrow>
                (case traverseAncestors fuel g (Some nodeId) (path_to_root_visitor root)
                        ALL_EDGE_TYPES False of
                   (Inl e, st) \<Rightarrow> Inl e
                 | (Inr r, st) \<Rightarrow> Inr (\<not> ws_user st))))"

text \<open>
  \<open>removeEdge\<close> and \<open>removeNode\<close> change the graph and may throw after having changed it:
  they return the error, if any, with the graph as it then is. A \<open>for\<close> loop over a
  snapshot stops at the first error.
\<close>

fun fold_st :: "('a \<Rightarrow> 's \<Rightarrow> error option \<times> 's) \<Rightarrow> 'a list \<Rightarrow> 's \<Rightarrow> error option \<times> 's" where
  "fold_st f [] s = (None, s)"
| "fold_st f (x # xs) s =
     (case f x s of
        (Some e, s') \<Rightarrow> (Some e, s')
      | (None, s') \<Rightarrow> fold_st f xs s')"

text \<open>
  The two methods call each other; the recursion is bounded by its depth, which is also
  the bound given to the traversal of \<open>isOrphanedNode\<close>.
\<close>

fun removeEdge ::
  "nat \<Rightarrow> ('n, 'z) graph_scheme \<Rightarrow> nat \<Rightarrow> nat \<Rightarrow> nat \<Rightarrow> bool
     \<Rightarrow> error option \<times> ('n, 'z) graph_scheme"
and removeNode ::
  "nat \<Rightarrow> ('n, 'z) graph_scheme \<Rightarrow> nat \<Rightarrow> error option \<times> ('n, 'z) graph_scheme" where
  "removeEdge 0 g from to ty removeOrphans = (Some OutOfFuel, g)"
| "removeEdge (Suc fuel) g from to ty removeOrphans =
     (if \<not> al_hasEdge (adjacencyList g) from to ty then (Some (EdgeNotFound from to), g)
      else
        (let g1 = g\<lparr>adjacencyList := al_removeEdge (adjacencyList g) from to ty\<rparr>
         in if removeOrphans
            then (case isOrphanedNode fuel g1 to of
                    Inl e \<Rightarrow> (Some e, g1)
                  | Inr orphaned \<Rightarrow> if orphaned then removeNode fuel g1 to else (None, g1))
            else (None, g1)))"
| "removeNode 0 g nodeId = (Some OutOfFuel, g)"
| "removeNode (Suc fuel) g nodeId =
     (if \<not> hasNode g nodeId then (Some (DoesNotHaveNode nodeId), g)
      else
        (case fold_st (\<lambda>(ty, from) g'. removeEdge fuel g' from nodeId ty False)
                (al_getInboundEdgesByType (adjacencyList g) nodeId) g of
           (Some e, g1) \<Rightarrow> (Some e, g1)
         | (None, g1) \<Rightarrow>
             (case fold_st (\<lambda>(ty, to) g'. removeEdge fuel g' nodeId to ty True)
                     (al_getOutboundEdgesByType (adjacencyList g1) nodeId) g1 of
                (Some e, g2) \<Rightarrow> (Some e, g2)
              | (None, g2) \<Rightarrow>
                  if hasNode g2 nodeId
                  then (None, g2\<lparr>nodes := AList.delete nodeId (nodes g2)\<rparr>)
                  else (Some AssertionFailed, g2))))"

section \<open>Symbol propagation (SymbolPropagation.js)\<close>

subsection \<open>The asset graph and the database\<close>

text \<open>
  A node of the asset graph is a JS object with a \<open>type\<close>, an \<open>id\<close> (its content key) and
  a \<open>value\<close>; assets and dependencies carry the symbol sets and the dirty flags. One
  record holds the fields of all the node types; a field that a node type does not have is
  never read for it. \<open>node_value\<close> is the database handle of an asset or of a dependency;
  the \<open>value\<close> of an asset group is an object, of which \<open>filePath\<close> and \<open>sideEffects\<close>
  are read. A JS \<open>Set\<close> is the list of its elements and a JS \<open>Map\<close> an association list,
  both in insertion order. A value \<open>None\<close> in \<open>usedSymbolsUp\<close> is \<open>null\<close> or
  \<open>undefined\<close>, which the code does not tell apart.
\<close>

datatype node_type = asset | dependency | asset_group | root | entry_specifier | entry_file

record resolution =
  res_asset :: string
  res_symbol :: "nat option"

record node =
  node_type :: node_type
  node_id :: string
  node_value :: nat
  group_filePath :: string
  group_sideEffects :: "bool option"
  usedSymbols :: "nat list"
  usedSymbolsDown :: "nat list"
  usedSymbolsUp :: "(nat \<times> resolution option) list"
  usedSymbolsDownDirty :: bool
  usedSymbolsUpDirty :: bool
  usedSymbolsUpDirtyDown :: bool
  usedSymbolsUpDirtyUp :: bool
  excluded :: bool

text \<open>
  Modelled from the spec: \<open>AssetGraph\<close> and \<open>ContentGraph\<close> are not among the sources.
  The spec (3) says that the graph keeps a side index from content keys to node ids;
  \<open>getNodeIdByContentKey\<close> throws on a key that it does not have and
  \<open>getNodeByContentKey\<close> returns \<open>undefined\<close> there.
\<close>

record 'n content_graph = "'n graph" +
  contentKeyToNodeId :: "(string \<times> nat) list"

type_synonym asset_graph = "node content_graph"

definition getNodeIdByContentKey :: "('n, 'z) content_graph_scheme \<Rightarrow> string \<Rightarrow> error + nat" where
  "getNodeIdByContentKey g key =
     (case map_of (contentKeyToNodeId g) key of None \<Rightarrow> Inl NullThrows | Some nodeId \<Rightarrow> Inr nodeId)"

definition getNodeByContentKey :: "('n, 'z) content_graph_scheme \<Rightarrow> string \<Rightarrow> 'n option" where
  "getNodeByContentKey g key =
     (case map_of (contentKeyToNodeId g) key of None \<Rightarrow> None | Some nodeId \<Rightarrow> getNode g nodeId)"

text \<open>
  The visitors hold references to node objects and mutate them in place. A reference is the
  node's id in the node map: \<open>deref\<close> reads the object and \<open>modify_node\<close> writes to it.
  The visitors are only given references to nodes that \<open>getNode\<close> has returned, and no node
  is ever deleted, so the default of \<open>deref\<close> is never read.
\<close>

definition null_node :: node where
  "null_node =
     \<lparr>node_type = root, node_id = [], node_value = 0, group_filePath = [],
      group_sideEffects = None, usedSymbols = [], usedSymbolsDown = [], usedSymbolsUp = [],
      usedSymbolsDownDirty = False, usedSymbolsUpDirty = False, usedSymbolsUpDirtyDown = False,
      usedSymbolsUpDirtyUp = False, excluded = False\<rparr>"

definition deref :: "asset_graph \<Rightarrow> nat \<Rightarrow> node" where
  "deref g r = (case getNode g r of Some n \<Rightarrow> n | None \<Rightarrow> null_node)"

definition modify_node :: "nat \<Rightarrow> (node \<Rightarrow> node) \<Rightarrow> asset_graph \<Rightarrow> asset_graph" where
  "modify_node r f g = g\<lparr>nodes := AList.map_entry r f (nodes g)\<rparr>"

text \<open>
  The database (\<open>DbAsset.get\<close>, \<open>DbDependency.get\<close>, the two distinguished symbols and
  the flag constants, all of \<open>@parcel/rust\<close>) is not among the sources and is read only: it
  is a parameter, as are \<open>AssetGraph.getIncomingDependencies\<close> (the content keys of the
  incoming dependencies of an asset, as a function of the graph and of the asset's value) and
  the outcome of the comparison that chooses the full pass of the up traversal, which the
  code computes in floating point from \<open>assetGraph.nodes.length\<close> and the number of dirty
  assets.
\<close>

record dependency_value =
  dep_symbols :: "symbol_decl list option"
  dep_flags :: "32 word"
  sourceAssetId :: "nat option"
  specifier :: string

record env =
  db_asset :: "nat \<Rightarrow> asset_value"
  db_dependency :: "nat \<Rightarrow> dependency_value"
  starSymbol :: nat
  defaultSymbol :: nat
  flag_SIDE_EFFECTS :: "32 word"
  flag_HAS_SYMBOLS :: "32 word"
  flag_IS_WEAK :: "32 word"
  getIncomingDependencies :: "asset_graph \<Rightarrow> nat \<Rightarrow> string list"
  runFullPass :: "asset_graph \<Rightarrow> nat \<Rightarrow> bool"

text \<open>A diagnostic: the file path and the symbol of its message, and the code frame (the
  location and the language of the source asset) when the symbol has a location.\<close>

record diagnostic =
  diag_filePath :: string
  diag_symbol :: nat
  diag_codeFrame :: "(source_location \<times> string option) option"

subsection \<open>JS sets and maps, loops with errors\<close>

definition set_add :: "'a \<Rightarrow> 'a list \<Rightarrow> 'a list" where
  "set_add x xs = (if x \<in> set xs then xs else xs @ [x])"

definition set_delete :: "'a \<Rightarrow> 'a list \<Rightarrow> 'a list" where
  "set_delete x xs = filter (\<lambda>y. y \<noteq> x) xs"

definition map_has :: "'k \<Rightarrow> ('k \<times> 'v) list \<Rightarrow> bool" where
  "map_has k m = (k \<in> fst ` set m)"

text \<open>Modelled from the spec: \<open>setEqual\<close> of \<open>@parcel/utils\<close> is not among the sources; the
  spec (4.3) says of its use "if \<open>O.usedSymbolsDown\<close> changed versus its previous value".\<close>

definition setEqual :: "'a list \<Rightarrow> 'a list \<Rightarrow> bool" where
  "setEqual a b = (set a = set b)"

fun fold_err :: "('a \<Rightarrow> 's \<Rightarrow> error + 's) \<Rightarrow> 'a list \<Rightarrow> 's \<Rightarrow> error + 's" where
  "fold_err f [] s = Inr s"
| "fold_err f (x # xs) s = (case f x s of Inl e \<Rightarrow> Inl e | Inr s' \<Rightarrow> fold_err f xs s')"

text \<open>\<open>xs.map(f)\<close> for an \<open>f\<close> that may throw.\<close>

fun map_err :: "('a \<Rightarrow> error + 'b) \<Rightarrow> 'a list \<Rightarrow> error + 'b list" where
  "map_err f [] = Inr []"
| "map_err f (x # xs) =
     (case f x of
        Inl e \<Rightarrow> Inl e
      | Inr y \<Rightarrow> (case map_err f xs of Inl e \<Rightarrow> Inl e | Inr ys \<Rightarrow> Inr (y # ys)))"

text \<open>\<open>setPop\<close>: the first element of the set, removed; \<open>nullthrows\<close> on an empty set.\<close>

definition setPop :: "'a list \<Rightarrow> error + ('a \<times> 'a list)" where
  "setPop xs = (case xs of [] \<Rightarrow> Inl NullThrows | v # rest \<Rightarrow> Inr (v, rest))"

subsection \<open>The state of a propagation\<close>

text \<open>
  The graph, with the closure variables of \<open>propagateSymbols\<close> that the visitors write to,
  \<open>changedDeps\<close> (a set of dependency nodes, here of their references) and
  \<open>changedDepsUsedSymbolsUpDirtyDown\<close> (a set of content keys), and the map \<open>errors\<close> of
  \<open>propagateSymbolsUp\<close>. \<open>upVisits\<close> is a log that the code does not have and that no
  branch of the model reads: the assets that the up traversal has called its visitor on, in
  order, each with the diagnostics that the visitor returned.
\<close>

record pstate =
  assetGraph :: asset_graph
  changedDeps :: "nat list"
  changedDepsUsedSymbolsUpDirtyDown :: "string list"
  errors :: "(nat \<times> diagnostic list) list"
  upVisits :: "(nat \<times> diagnostic list) list"

definition modify :: "nat \<Rightarrow> (node \<Rightarrow> node) \<Rightarrow> pstate \<Rightarrow> pstate" where
  "modify r f s = s\<lparr>assetGraph := modify_node r f (assetGraph s)\<rparr>"

text \<open>The symbol table of an asset, inverted: \<open>local\<close> to the set of \<open>exported\<close>.\<close>

definition assetSymbolsInverse :: "symbol_decl list \<Rightarrow> (nat \<times> nat list) list" where
  "assetSymbolsInverse assetSymbols =
     fold (\<lambda>s inv.
             case map_of inv (local s) of
               None \<Rightarrow> inv @ [(local s, [exported s])]
             | Some st \<Rightarrow> AList.update (local s) (set_add (exported s) st) inv)
       assetSymbols []"

definition star_reexport :: "nat \<Rightarrow> symbol_decl list option \<Rightarrow> bool" where
  \<comment> \<open>\<open>symbols?.find(s => s.exported === starSymbol)?.local === starSymbol\<close>\<close>
  "star_reexport star syms =
     (case syms of
        None \<Rightarrow> False
      | Some ss \<Rightarrow> (case find (\<lambda>s. exported s = star) ss of
                     None \<Rightarrow> False
                   | Some s \<Rightarrow> local s = star))"

subsection \<open>The visitor of the down traversal\<close>

definition add_usedSymbol :: "nat \<Rightarrow> nat \<Rightarrow> pstate \<Rightarrow> pstate" where
  \<comment> \<open>\<open>assetNode.usedSymbols.add(s)\<close>\<close>
  "add_usedSymbol assetNode s st =
     modify assetNode (\<lambda>n. n\<lparr>usedSymbols := set_add s (usedSymbols n)\<rparr>) st"

definition delete_usedSymbol :: "nat \<Rightarrow> nat \<Rightarrow> pstate \<Rightarrow> pstate" where
  \<comment> \<open>\<open>assetNode.usedSymbols.delete(s)\<close>\<close>
  "delete_usedSymbol assetNode s st =
     modify assetNode (\<lambda>n. n\<lparr>usedSymbols := set_delete s (usedSymbols n)\<rparr>) st"

text \<open>The local variables of step 1 of the visitor.\<close>

record down_locals =
  isEntry :: bool
  addAll :: bool
  namespaceReexportedSymbols :: "nat list"

text \<open>The body of the loop over \<open>incomingDep.usedSymbolsDown\<close>.\<close>

definition request_symbol ::
  "env \<Rightarrow> nat \<Rightarrow> symbol_decl list option \<Rightarrow> bool \<Rightarrow> nat \<Rightarrow> down_locals \<times> pstate
     \<Rightarrow> down_locals \<times> pstate" where
  "request_symbol env assetNode assetSymbols hasNamespaceOutgoingDeps exportSymbol lst =
     (case lst of
        (l, st) \<Rightarrow>
          (case (if exportSymbol = starSymbol env
                 then (l\<lparr>namespaceReexportedSymbols :=
                            set_add (starSymbol env) (namespaceReexportedSymbols l)\<rparr>,
                       add_usedSymbol assetNode (starSymbol env) st)
                 else (l, st)) of
             (l1, st1) \<Rightarrow>
               if (case assetSymbols of
                     None \<Rightarrow> True
                   | Some ss \<Rightarrow> list_ex (\<lambda>s. exported s = exportSymbol) ss
                               \<or> list_ex (\<lambda>s. exported s = starSymbol env) ss)
               then (l1, add_usedSymbol assetNode exportSymbol st1)
               else if hasNamespaceOutgoingDeps \<and> exportSymbol \<noteq> defaultSymbol env
               then (l1\<lparr>namespaceReexportedSymbols :=
                          set_add exportSymbol (namespaceReexportedSymbols l1)\<rparr>, st1)
               else (l1, st1)))"

text \<open>The body of the loop over \<open>incomingDeps\<close>.\<close>

definition request_from_dep ::
  "env \<Rightarrow> nat \<Rightarrow> symbol_decl list option \<Rightarrow> bool \<Rightarrow> nat \<Rightarrow> down_locals \<times> pstate
     \<Rightarrow> down_locals \<times> pstate" where
  "request_from_dep env assetNode assetSymbols hasNamespaceOutgoingDeps incomingDep lst =
     (case lst of
        (l, st) \<Rightarrow>
          (let dep = db_dependency env (node_value (deref (assetGraph st) incomingDep))
           in if dep_flags dep AND flag_HAS_SYMBOLS env = 0
              then (if sourceAssetId dep = None then (l\<lparr>isEntry := True\<rparr>, st)
                    else (l\<lparr>addAll := True\<rparr>, st))
              else fold (request_symbol env assetNode assetSymbols hasNamespaceOutgoingDeps)
                     (usedSymbolsDown (deref (assetGraph st) incomingDep)) (l, st)))"

text \<open>Step 1: what the incoming dependencies request from the asset.\<close>

definition determine_requested ::
  "env \<Rightarrow> nat \<Rightarrow> symbol_decl list option \<Rightarrow> bool \<Rightarrow> nat list \<Rightarrow> pstate
     \<Rightarrow> error + (down_locals \<times> pstate)" where
  "determine_requested env assetNode assetSymbols hasNamespaceOutgoingDeps incomingDeps st =
     (case (if incomingDeps = []
            then (\<lparr>isEntry = False, addAll = False,
                   namespaceReexportedSymbols = set_add (starSymbol env) []\<rparr>,
                  add_usedSymbol assetNode (starSymbol env)
                    (modify assetNode (\<lambda>n. n\<lparr>usedSymbols := []\<rparr>) st))
            else fold (request_from_dep env assetNode assetSymbols hasNamespaceOutgoingDeps)
                   incomingDeps
                   (\<lparr>isEntry = False, addAll = False, namespaceReexportedSymbols = []\<rparr>,
                    modify assetNode (\<lambda>n. n\<lparr>usedSymbols := []\<rparr>) st)) of
        (l, st1) \<Rightarrow>
          if addAll l
          then (case assetSymbols of
                  None \<Rightarrow> Inl TypeError
                | Some ss \<Rightarrow>
                    Inr (l, fold (\<lambda>sy. add_usedSymbol assetNode (exported sy)) ss st1))
          else Inr (l, st1))"

text \<open>The body of the loop over the symbols of an outgoing dependency;
  \<open>depUsedSymbolsDown\<close> is the new set of the dependency.\<close>

definition distribute_symbol ::
  "env \<Rightarrow> nat \<Rightarrow> (nat \<times> nat list) list option \<Rightarrow> symbol_decl \<Rightarrow> nat list \<times> pstate
     \<Rightarrow> nat list \<times> pstate" where
  "distribute_symbol env assetNode assetSymbolsInverse' sy dst =
     (case dst of
        (depUsedSymbolsDown, st) \<Rightarrow>
          if local sy = starSymbol env then (depUsedSymbolsDown, st)
          else
            (case assetSymbolsInverse' of
               None \<Rightarrow> (set_add (exported sy) depUsedSymbolsDown, st)
             | Some inverseMap \<Rightarrow>
                 if sym_flags sy AND flag_IS_WEAK env = 0
                 then (set_add (exported sy) depUsedSymbolsDown, st)
                 else
                   (case map_of inverseMap (local sy) of
                      None \<Rightarrow> (set_add (exported sy) depUsedSymbolsDown, st)
                    | Some reexportedExportSymbols \<Rightarrow>
                        if starSymbol env \<in> set (usedSymbols (deref (assetGraph st) assetNode))
                        then (set_add (exported sy) depUsedSymbolsDown,
                              fold (delete_usedSymbol assetNode) reexportedExportSymbols st)
                        else
                          (let usedReexportedExportSymbols =
                                 filter (\<lambda>s. s \<in> set (usedSymbols (deref (assetGraph st) assetNode)))
                                   reexportedExportSymbols
                           in if usedReexportedExportSymbols \<noteq> []
                              then (set_add (exported sy) depUsedSymbolsDown,
                                    fold (delete_usedSymbol assetNode)
                                      usedReexportedExportSymbols st)
                              else (depUsedSymbolsDown, st)))))"

text \<open>The end of the loop body over \<open>outgoingDeps\<close>: the dirty flags of a dependency whose
  set changed.\<close>

definition mark_outgoing :: "nat \<Rightarrow> nat list \<Rightarrow> nat list \<Rightarrow> pstate \<Rightarrow> pstate" where
  "mark_outgoing dep depUsedSymbolsDownOld depUsedSymbolsDown st =
     (let st1 =
            (if \<not> setEqual depUsedSymbolsDownOld depUsedSymbolsDown
             then (modify dep (\<lambda>n. n\<lparr>usedSymbolsUpDirtyDown := True\<rparr>)
                     (modify dep (\<lambda>n. n\<lparr>usedSymbolsDownDirty := True\<rparr>) st))
                    \<lparr>changedDepsUsedSymbolsUpDirtyDown :=
                       set_add (node_id (deref (assetGraph st) dep))
                         (changedDepsUsedSymbolsUpDirtyDown st)\<rparr>
             else st)
      in if usedSymbolsUpDirtyDown (deref (assetGraph st1) dep)
         then st1\<lparr>changedDepsUsedSymbolsUpDirtyDown :=
                    set_add (node_id (deref (assetGraph st1) dep))
                      (changedDepsUsedSymbolsUpDirtyDown st1)\<rparr>
         else st1)"

text \<open>Step 2, the body of the loop over \<open>outgoingDeps\<close>. The \<open>continue\<close> for a dependency
  without symbols leaves it with the new, empty set and skips the dirty flags.\<close>

definition distribute_to_dep ::
  "env \<Rightarrow> nat \<Rightarrow> asset_value \<Rightarrow> (nat \<times> nat list) list option \<Rightarrow> down_locals \<Rightarrow> nat \<Rightarrow> pstate
     \<Rightarrow> pstate" where
  "distribute_to_dep env assetNode asset' assetSymbolsInverse' l dep st =
     (let depUsedSymbolsDownOld = usedSymbolsDown (deref (assetGraph st) dep);
          st0 = modify dep (\<lambda>n. n\<lparr>usedSymbolsDown := []\<rparr>) st
      in if flags asset' AND flag_SIDE_EFFECTS env \<noteq> 0 \<or> addAll l \<or> isEntry l
            \<or> usedSymbols (deref (assetGraph st0) assetNode) \<noteq> []
            \<or> namespaceReexportedSymbols l \<noteq> []
         then (case dep_symbols (db_dependency env (node_value (deref (assetGraph st0) dep))) of
                 None \<Rightarrow> st0
               | Some depSymbols \<Rightarrow>
                   (case fold (distribute_symbol env assetNode assetSymbolsInverse') depSymbols
                           (if star_reexport (starSymbol env) (Some depSymbols)
                            then (if addAll l then set_add (starSymbol env) []
                                  else fold set_add (namespaceReexportedSymbols l) [])
                            else [],
                            st0) of
                      (depUsedSymbolsDown, st1) \<Rightarrow>
                        mark_outgoing dep depUsedSymbolsDownOld depUsedSymbolsDown
                          (modify dep (\<lambda>n. n\<lparr>usedSymbolsDown := depUsedSymbolsDown\<rparr>) st1)))
         else mark_outgoing dep depUsedSymbolsDownOld [] st0)"

definition visit_down :: "env \<Rightarrow> nat \<Rightarrow> nat list \<Rightarrow> nat list \<Rightarrow> pstate \<Rightarrow> error + pstate" where
  "visit_down env assetNode incomingDeps outgoingDeps st =
     (let asset' = db_asset env (node_value (deref (assetGraph st) assetNode));
          assetSymbols = symbols asset';
          assetSymbolsInverse' = map_option assetSymbolsInverse assetSymbols;
          hasNamespaceOutgoingDeps =
            list_ex (\<lambda>d. star_reexport (starSymbol env)
                           (dep_symbols (db_dependency env (node_value (deref (assetGraph st) d)))))
              outgoingDeps
      in case determine_requested env assetNode assetSymbols hasNamespaceOutgoingDeps
                incomingDeps st of
           Inl e \<Rightarrow> Inl e
         | Inr (l, st1) \<Rightarrow>
             Inr (fold (distribute_to_dep env assetNode asset' assetSymbolsInverse' l)
                    outgoingDeps st1))"

subsection \<open>The down traversal\<close>

text \<open>The lists of node references that the traversals hand to a visitor.\<close>

definition incoming_dependencies :: "env \<Rightarrow> asset_graph \<Rightarrow> node \<Rightarrow> error + nat list" where
  \<comment> \<open>\<open>assetGraph.getIncomingDependencies(node.value).map(d => { let dep =
      assetGraph.getNodeByContentKey(d); invariant(dep && dep.type === 'dependency');
      return dep; })\<close>\<close>
  "incoming_dependencies env g n =
     map_err (\<lambda>d. case map_of (contentKeyToNodeId g) d of
                     None \<Rightarrow> Inl AssertionFailed
                   | Some r \<Rightarrow>
                       (case getNode g r of
                          None \<Rightarrow> Inl AssertionFailed
                        | Some dep \<Rightarrow>
                            if node_type dep = dependency then Inr r else Inl AssertionFailed))
       (getIncomingDependencies env g (node_value n))"

definition outgoing_dependencies :: "asset_graph \<Rightarrow> nat list \<Rightarrow> error + nat list" where
  \<comment> \<open>\<open>outgoing.map(dep => { let depNode = nullthrows(assetGraph.getNode(dep));
      invariant(depNode.type === 'dependency'); return depNode; })\<close>\<close>
  "outgoing_dependencies g outgoing =
     map_err (\<lambda>r. case getNode g r of
                     None \<Rightarrow> Inl NullThrows
                   | Some depNode \<Rightarrow>
                       if node_type depNode = dependency then Inr r else Inl AssertionFailed)
       outgoing"

type_synonym visitor_fn = "nat \<Rightarrow> nat list \<Rightarrow> nat list \<Rightarrow> pstate \<Rightarrow> error + pstate"

text \<open>The body of the loop over the children of the dequeued node.\<close>

definition down_child :: "bool \<Rightarrow> nat \<Rightarrow> nat list \<times> pstate \<Rightarrow> error + (nat list \<times> pstate)" where
  "down_child wasNodeDirty child qst =
     (case qst of
        (queue, st) \<Rightarrow>
          (case getNode (assetGraph st) child of
             None \<Rightarrow> Inl NullThrows
           | Some childNode \<Rightarrow>
               if (node_type childNode = asset \<or> node_type childNode = asset_group)
                  \<and> wasNodeDirty
               then Inr (set_add child queue,
                         modify child (\<lambda>n. n\<lparr>usedSymbolsDownDirty := True\<rparr>) st)
               else if node_type childNode = dependency \<and> usedSymbolsDownDirty childNode
               then Inr (set_add child queue, st)
               else Inr (queue, st)))"

text \<open>The first half of the body of the \<open>while\<close> loop: the dequeued node itself. It returns
  \<open>wasNodeDirty\<close>.\<close>

definition down_node ::
  "env \<Rightarrow> visitor_fn \<Rightarrow> nat \<Rightarrow> nat list \<Rightarrow> node \<Rightarrow> pstate \<Rightarrow> error + (bool \<times> pstate)" where
  "down_node env visit queuedNodeId outgoing n st =
     (if node_type n = dependency \<or> node_type n = asset_group
      then Inr (usedSymbolsDownDirty n,
                modify queuedNodeId (\<lambda>n. n\<lparr>usedSymbolsDownDirty := False\<rparr>) st)
      else if node_type n = asset \<and> usedSymbolsDownDirty n
      then (case incoming_dependencies env (assetGraph st) n of
              Inl e \<Rightarrow> Inl e
            | Inr incomingDeps \<Rightarrow>
                (case outgoing_dependencies (assetGraph st) outgoing of
                   Inl e \<Rightarrow> Inl e
                 | Inr outgoingDeps \<Rightarrow>
                     (case visit queuedNodeId incomingDeps outgoingDeps st of
                        Inl e \<Rightarrow> Inl e
                      | Inr st' \<Rightarrow>
                          Inr (False,
                               modify queuedNodeId
                                 (\<lambda>n. n\<lparr>usedSymbolsDownDirty := False\<rparr>) st'))))
      else Inr (False, st))"

text \<open>The body of the \<open>while\<close> loop, on the queue, the set \<open>unreachedAssets\<close> and the state.\<close>

definition down_step ::
  "env \<Rightarrow> visitor_fn \<Rightarrow> nat list \<Rightarrow> nat list \<Rightarrow> pstate
     \<Rightarrow> error + (nat list \<times> nat list \<times> pstate)" where
  "down_step env visit queue unreachedAssets st =
     (case setPop queue of
        Inl e \<Rightarrow> Inl e
      | Inr (queuedNodeId, queue1) \<Rightarrow>
          (case getNodeIdsConnectedFrom (assetGraph st) queuedNodeId (OneType 1) of
             Inl e \<Rightarrow> Inl e
           | Inr outgoing \<Rightarrow>
               (case getNode (assetGraph st) queuedNodeId of
                  None \<Rightarrow> Inl NullThrows
                | Some n \<Rightarrow>
                    (case down_node env visit queuedNodeId outgoing n st of
                       Inl e \<Rightarrow> Inl e
                     | Inr (wasNodeDirty, st1) \<Rightarrow>
                         (case fold_err (down_child wasNodeDirty) outgoing (queue1, st1) of
                            Inl e \<Rightarrow> Inl e
                          | Inr (queue2, st2) \<Rightarrow>
                              if queue2 = [] \<and> set_delete queuedNodeId unreachedAssets \<noteq> []
                              then (case setPop (set_delete queuedNodeId unreachedAssets) of
                                      Inl e \<Rightarrow> Inl e
                                    | Inr (v, unreached2) \<Rightarrow> Inr (set_add v queue2, unreached2, st2))
                              else Inr (queue2, set_delete queuedNodeId unreachedAssets, st2))))))"

text \<open>The \<open>while\<close> loop, one unit of the bound per dequeued node.\<close>

fun down_loop ::
  "nat \<Rightarrow> env \<Rightarrow> visitor_fn \<Rightarrow> nat list \<Rightarrow> nat list \<Rightarrow> pstate \<Rightarrow> error + pstate" where
  "down_loop fuel env visit [] unreachedAssets st = Inr st"
| "down_loop 0 env visit (q # queue) unreachedAssets st = Inl OutOfFuel"
| "down_loop (Suc fuel) env visit (q # queue) unreachedAssets st =
     (case down_step env visit (q # queue) unreachedAssets st of
        Inl e \<Rightarrow> Inl e
      | Inr (queue', unreached', st') \<Rightarrow> down_loop fuel env visit queue' unreached' st')"

definition propagateSymbolsDown ::
  "nat \<Rightarrow> env \<Rightarrow> nat list \<Rightarrow> nat list \<Rightarrow> visitor_fn \<Rightarrow> pstate \<Rightarrow> error + pstate" where
  "propagateSymbolsDown fuel env changedAssets assetGroupsWithRemovedParents visit st =
     (if changedAssets = [] \<and> assetGroupsWithRemovedParents = [] then Inr st
      else (case setPop (fold set_add (changedAssets @ assetGroupsWithRemovedParents) []) of
              Inl e \<Rightarrow> Inl e
            | Inr (v, unreachedAssets) \<Rightarrow> down_loop fuel env visit [v] unreachedAssets st))"

subsection \<open>The visitor of the up traversal\<close>

text \<open>
  The body of the two \<open>forEach\<close> callbacks that fill \<open>reexportedSymbols\<close>. The map
  \<open>reexportedSymbolsSource\<close> is left out: it gets an entry whenever \<open>reexportedSymbols\<close>
  gets a new key and is read, under \<open>nullthrows\<close>, only for a key of \<open>reexportedSymbols\<close>
  and only to word the log message.
\<close>

definition record_reexport ::
  "env \<Rightarrow> nat \<Rightarrow> nat \<Rightarrow> resolution option \<Rightarrow> (nat \<times> resolution option) list \<times> pstate
     \<Rightarrow> (nat \<times> resolution option) list \<times> pstate" where
  "record_reexport env assetNode s sResolved rst =
     (case rst of
        (reexportedSymbols, st) \<Rightarrow>
          if map_has s reexportedSymbols
          then (AList.update s
                  (Some \<lparr>res_asset = node_id (deref (assetGraph st) assetNode),
                         res_symbol = Some s\<rparr>) reexportedSymbols,
                add_usedSymbol assetNode (starSymbol env) st)
          else (AList.update s sResolved reexportedSymbols, st))"

text \<open>An outgoing dependency that resolves to nothing is excluded: every symbol requested
  from it is taken to exist. \<open>outgoingDep.usedSymbolsDown.forEach((_, s) =>
  outgoingDep.usedSymbolsUp.set(s, null))\<close>\<close>

definition assume_excluded :: "nat \<Rightarrow> pstate \<Rightarrow> pstate" where
  "assume_excluded outgoingDep st =
     fold (\<lambda>s. modify outgoingDep
                 (\<lambda>n. n\<lparr>usedSymbolsUp := AList.update s None (usedSymbolsUp n)\<rparr>))
       (usedSymbolsDown (deref (assetGraph st) outgoingDep)) st"

text \<open>The \<open>forEach\<close> over \<open>outgoingDep.usedSymbolsUp\<close> of a dependency that reexports the
  namespace.\<close>

definition namespace_reexports ::
  "env \<Rightarrow> nat \<Rightarrow> nat \<Rightarrow> (nat \<times> resolution option) list \<times> pstate
     \<Rightarrow> (nat \<times> resolution option) list \<times> pstate" where
  "namespace_reexports env assetNode outgoingDep rst =
     fold (\<lambda>(s, sResolved) acc.
             if s = defaultSymbol env then acc
             else record_reexport env assetNode s sResolved acc)
       (usedSymbolsUp (deref (assetGraph (snd rst)) outgoingDep)) rst"

text \<open>The body of the \<open>for\<close> loop over \<open>outgoingDep.usedSymbolsUp\<close>.\<close>

definition named_reexport ::
  "env \<Rightarrow> nat \<Rightarrow> (nat \<times> nat list) list option \<Rightarrow> symbol_decl list \<Rightarrow> nat list
     \<Rightarrow> nat \<times> resolution option \<Rightarrow> (nat \<times> resolution option) list \<times> pstate
     \<Rightarrow> (nat \<times> resolution option) list \<times> pstate" where
  "named_reexport env assetNode assetSymbolsInverse' outgoingDepSymbols down entry acc =
     (case entry of
        (s, sResolved) \<Rightarrow>
          if s \<notin> set down then acc
          else
            (case find (\<lambda>sy. exported sy = s) outgoingDepSymbols of
               None \<Rightarrow> acc
             | Some sy \<Rightarrow>
                 (case assetSymbolsInverse' of
                    None \<Rightarrow> acc
                  | Some inverseMap \<Rightarrow>
                      (case map_of inverseMap (local sy) of
                         None \<Rightarrow> acc
                       | Some reexported \<Rightarrow>
                           fold (\<lambda>r. record_reexport env assetNode r sResolved)
                             reexported acc))))"

definition named_reexports ::
  "env \<Rightarrow> nat \<Rightarrow> (nat \<times> nat list) list option \<Rightarrow> symbol_decl list \<Rightarrow> nat
     \<Rightarrow> (nat \<times> resolution option) list \<times> pstate
     \<Rightarrow> (nat \<times> resolution option) list \<times> pstate" where
  "named_reexports env assetNode assetSymbolsInverse' outgoingDepSymbols outgoingDep rst =
     fold (named_reexport env assetNode assetSymbolsInverse' outgoingDepSymbols
             (usedSymbolsDown (deref (assetGraph (snd rst)) outgoingDep)))
       (usedSymbolsUp (deref (assetGraph (snd rst)) outgoingDep)) rst"

text \<open>The body of the loop over \<open>outgoingDeps\<close>.\<close>

definition collect_reexports ::
  "env \<Rightarrow> nat \<Rightarrow> (nat \<times> nat list) list option \<Rightarrow> nat
     \<Rightarrow> (nat \<times> resolution option) list \<times> pstate
     \<Rightarrow> error + ((nat \<times> resolution option) list \<times> pstate)" where
  "collect_reexports env assetNode assetSymbolsInverse' outgoingDep rst =
     (case rst of
        (reexportedSymbols, st) \<Rightarrow>
          (case dep_symbols (db_dependency env (node_value (deref (assetGraph st) outgoingDep))) of
             None \<Rightarrow> Inr (reexportedSymbols, st)
           | Some outgoingDepSymbols \<Rightarrow>
               (case getNodeIdByContentKey (assetGraph st)
                       (node_id (deref (assetGraph st) outgoingDep)) of
                  Inl e \<Rightarrow> Inl e
                | Inr depNodeId \<Rightarrow>
                    (case getNodeIdsConnectedFrom (assetGraph st) depNodeId (OneType 1) of
                       Inl e \<Rightarrow> Inl e
                     | Inr connected \<Rightarrow>
                         Inr (named_reexports env assetNode assetSymbolsInverse'
                                outgoingDepSymbols outgoingDep
                                (if star_reexport (starSymbol env) (Some outgoingDepSymbols)
                                 then namespace_reexports env assetNode outgoingDep
                                        (reexportedSymbols,
                                         if connected = [] then assume_excluded outgoingDep st
                                         else st)
                                 else (reexportedSymbols,
                                       if connected = [] then assume_excluded outgoingDep st
                                       else st)))))))"

definition usedSymbolsUpAmbiguous ::
  "(nat \<times> resolution option) list \<Rightarrow> (nat \<times> resolution option) list \<Rightarrow> nat \<Rightarrow> resolution
     \<Rightarrow> (nat \<times> resolution option) list" where
  "usedSymbolsUpAmbiguous old current s v =
     (if map_has s old
      then (case map_of old s of
              Some (Some valueOld) \<Rightarrow>
                if res_asset valueOld = res_asset v \<and> res_symbol valueOld = res_symbol v
                then AList.update s (Some v) current
                else AList.update s None current
            | _ \<Rightarrow> AList.update s None current)
      else AList.update s (Some v) current)"

definition equalMap ::
  "(nat \<times> resolution option) list \<Rightarrow> (nat \<times> resolution option) list \<Rightarrow> bool" where
  "equalMap a b =
     (length a = length b
      \<and> list_all (\<lambda>(k, v). case map_of b k of
                              None \<Rightarrow> False
                            | Some vB \<Rightarrow>
                                map_option res_asset vB = map_option res_asset v
                                \<and> Option.bind vB res_symbol = Option.bind v res_symbol) a)"

text \<open>The diagnostic for a symbol that the asset does not export.\<close>

definition missing_export_diagnostic ::
  "env \<Rightarrow> asset_graph \<Rightarrow> nat \<Rightarrow> nat \<Rightarrow> error + diagnostic" where
  "missing_export_diagnostic env g incomingDep s =
     (let dep = db_dependency env (node_value (deref g incomingDep));
          loc' = (case dep_symbols dep of
                    None \<Rightarrow> None
                  | Some ss \<Rightarrow> (case find (\<lambda>sy. exported sy = s) ss of
                                 None \<Rightarrow> None
                               | Some sy \<Rightarrow> loc sy))
      in case getNodeIdByContentKey g (node_id (deref g incomingDep)) of
           Inl e \<Rightarrow> Inl e
         | Inr depNodeId \<Rightarrow>
             (case getNodeIdsConnectedFrom g depNodeId (OneType 1) of
                Inl e \<Rightarrow> Inl e
              | Inr connected \<Rightarrow>
                  (case connected of
                     [] \<Rightarrow> Inl NullThrows
                   | resolutionNodeId # other \<Rightarrow>
                       (case getNode g resolutionNodeId of
                          None \<Rightarrow> Inl NullThrows
                        | Some resolution' \<Rightarrow>
                            if node_type resolution' = asset_group \<or> node_type resolution' = asset
                            then Inr \<lparr>diag_filePath =
                                        (if node_type resolution' = asset
                                         then filePath (db_asset env (node_value resolution'))
                                         else group_filePath resolution'),
                                      diag_symbol = s,
                                      diag_codeFrame =
                                        (case loc' of
                                           None \<Rightarrow> None
                                         | Some l \<Rightarrow>
                                             Some (l, map_option (\<lambda>a. assetType (db_asset env a))
                                                        (sourceAssetId dep)))\<rparr>
                            else Inl AssertionFailed))))"

text \<open>The body of the loop over \<open>incomingDep.usedSymbolsDown\<close>; \<open>errs\<close> is the array
  \<open>errors\<close> of the visitor.\<close>

definition resolve_symbol ::
  "env \<Rightarrow> nat \<Rightarrow> asset_value \<Rightarrow> (nat \<times> resolution option) list \<Rightarrow> bool \<Rightarrow> nat
     \<Rightarrow> (nat \<times> resolution option) list \<Rightarrow> nat \<Rightarrow> diagnostic list \<times> pstate
     \<Rightarrow> error + (diagnostic list \<times> pstate)" where
  "resolve_symbol env assetNode asset' reexportedSymbols hasNamespaceReexport incomingDep
       incomingDepUsedSymbolsUpOld s est =
     (case est of
        (errs, st) \<Rightarrow>
          if symbols asset' = None \<or> bundleBehavior asset' = ''isolated''
             \<or> bundleBehavior asset' = ''inline'' \<or> s = starSymbol env
             \<or> s \<in> set (usedSymbols (deref (assetGraph st) assetNode))
          then Inr (errs,
                    modify incomingDep
                      (\<lambda>n. n\<lparr>usedSymbolsUp :=
                                usedSymbolsUpAmbiguous incomingDepUsedSymbolsUpOld (usedSymbolsUp n) s
                                  \<lparr>res_asset = node_id (deref (assetGraph st) assetNode),
                                   res_symbol = Some s\<rparr>\<rparr>) st)
          else if map_has s reexportedSymbols
          then Inr (errs,
                    modify incomingDep
                      (\<lambda>n. n\<lparr>usedSymbolsUp :=
                                usedSymbolsUpAmbiguous incomingDepUsedSymbolsUpOld (usedSymbolsUp n) s
                                  (case map_of reexportedSymbols s of
                                     Some (Some reexport) \<Rightarrow>
                                       if flags asset' AND flag_SIDE_EFFECTS env = 0 then reexport
                                       else \<lparr>res_asset = node_id (deref (assetGraph st) assetNode),
                                             res_symbol = Some s\<rparr>
                                   | _ \<Rightarrow> \<lparr>res_asset = node_id (deref (assetGraph st) assetNode),
                                           res_symbol = Some s\<rparr>)\<rparr>) st)
          else if \<not> hasNamespaceReexport
          then (case missing_export_diagnostic env (assetGraph st) incomingDep s of
                  Inl e \<Rightarrow> Inl e
                | Inr d \<Rightarrow> Inr (errs @ [d], st))
          else Inr (errs, st))"

text \<open>The end of the loop body over \<open>incomingDeps\<close>: \<open>incomingDep.excluded\<close>.\<close>

definition update_excluded :: "env \<Rightarrow> nat \<Rightarrow> pstate \<Rightarrow> error + pstate" where
  "update_excluded env incomingDep st =
     (let dep = db_dependency env (node_value (deref (assetGraph st) incomingDep));
          st1 = modify incomingDep (\<lambda>n. n\<lparr>excluded := False\<rparr>) st
      in if dep_flags dep AND flag_HAS_SYMBOLS env \<noteq> 0
            \<and> usedSymbolsUp (deref (assetGraph st1) incomingDep) = []
         then (case getNodeIdByContentKey (assetGraph st1)
                      (node_id (deref (assetGraph st1) incomingDep)) of
                 Inl e \<Rightarrow> Inl e
               | Inr depNodeId \<Rightarrow>
                   (case getNodeIdsConnectedFrom (assetGraph st1) depNodeId (OneType 1) of
                      Inl e \<Rightarrow> Inl e
                    | Inr assetGroups \<Rightarrow>
                        (case assetGroups of
                           [] \<Rightarrow> Inr st1
                         | [assetGroupId] \<Rightarrow>
                             (case getNode (assetGraph st1) assetGroupId of
                                None \<Rightarrow> Inl NullThrows
                              | Some assetGroup \<Rightarrow>
                                  if node_type assetGroup = asset_group
                                     \<and> group_sideEffects assetGroup = Some False
                                  then Inr (modify incomingDep (\<lambda>n. n\<lparr>excluded := True\<rparr>) st1)
                                  else Inr st1)
                         | a # b # other \<Rightarrow> Inl AssertionFailed)))
         else Inr st1)"

text \<open>The body of the loop over \<open>incomingDeps\<close>.\<close>

definition resolve_incoming ::
  "env \<Rightarrow> nat \<Rightarrow> asset_value \<Rightarrow> (nat \<times> resolution option) list \<Rightarrow> nat
     \<Rightarrow> diagnostic list \<times> pstate \<Rightarrow> error + (diagnostic list \<times> pstate)" where
  "resolve_incoming env assetNode asset' reexportedSymbols incomingDep est =
     (case est of
        (errs, st) \<Rightarrow>
          (let dep = db_dependency env (node_value (deref (assetGraph st) incomingDep));
               incomingDepUsedSymbolsUpOld = usedSymbolsUp (deref (assetGraph st) incomingDep);
               st0 = modify incomingDep (\<lambda>n. n\<lparr>usedSymbolsUp := []\<rparr>) st
           in case dep_symbols dep of
                None \<Rightarrow> Inr (errs, st0)
              | Some incomingDepSymbols \<Rightarrow>
                  (case fold_err
                          (resolve_symbol env assetNode asset' reexportedSymbols
                             (star_reexport (starSymbol env) (Some incomingDepSymbols))
                             incomingDep incomingDepUsedSymbolsUpOld)
                          (usedSymbolsDown (deref (assetGraph st0) incomingDep)) (errs, st0) of
                     Inl e \<Rightarrow> Inl e
                   | Inr (errs1, st1) \<Rightarrow>
                       (case update_excluded env incomingDep
                               (if \<not> equalMap incomingDepUsedSymbolsUpOld
                                       (usedSymbolsUp (deref (assetGraph st1) incomingDep))
                                then (modify incomingDep
                                        (\<lambda>n. n\<lparr>usedSymbolsUpDirtyUp := True\<rparr>) st1)
                                       \<lparr>changedDeps := set_add incomingDep (changedDeps st1)\<rparr>
                                else st1) of
                          Inl e \<Rightarrow> Inl e
                        | Inr st2 \<Rightarrow> Inr (errs1, st2)))))"

definition visit_up ::
  "env \<Rightarrow> nat \<Rightarrow> nat list \<Rightarrow> nat list \<Rightarrow> pstate \<Rightarrow> error + (diagnostic list \<times> pstate)" where
  "visit_up env assetNode incomingDeps outgoingDeps st =
     (let asset' = db_asset env (node_value (deref (assetGraph st) assetNode))
      in case fold_err (collect_reexports env assetNode
                          (map_option assetSymbolsInverse (symbols asset')))
                outgoingDeps ([], st) of
           Inl e \<Rightarrow> Inl e
         | Inr (reexportedSymbols, st1) \<Rightarrow>
             fold_err (resolve_incoming env assetNode asset' reexportedSymbols)
               incomingDeps ([], st1))"

subsection \<open>The up traversal\<close>

type_synonym up_visitor_fn =
  "nat \<Rightarrow> nat list \<Rightarrow> nat list \<Rightarrow> pstate \<Rightarrow> error + (diagnostic list \<times> pstate)"

definition getDependencyResolution :: "asset_graph \<Rightarrow> string \<Rightarrow> error + nat list" where
  \<comment> \<open>\<open>if (child)\<close> is false for the node id 0 as well\<close>
  "getDependencyResolution g depId =
     (case getNodeIdByContentKey g depId of
        Inl e \<Rightarrow> Inl e
      | Inr depNodeId \<Rightarrow>
          (case getNodeIdsConnectedFrom g depNodeId (OneType 1) of
             Inl e \<Rightarrow> Inl e
           | Inr connected \<Rightarrow>
               (case connected of
                  [] \<Rightarrow> Inr []
                | [child] \<Rightarrow>
                    if child = 0 then Inr []
                    else (case getNode g child of
                            None \<Rightarrow> Inl NullThrows
                          | Some childNode \<Rightarrow>
                              if node_type childNode = asset_group
                              then getNodeIdsConnectedFrom g child (OneType 1)
                              else Inr [child])
                | a # b # other \<Rightarrow> Inl AssertionFailed)))"

text \<open>\<open>for (let dep of incoming) if (dep.usedSymbolsUpDirtyDown) { dep.usedSymbolsUpDirtyDown =
  false; node.usedSymbolsUpDirty = true; }\<close>\<close>

definition take_dirty_down :: "nat \<Rightarrow> nat list \<Rightarrow> pstate \<Rightarrow> pstate" where
  "take_dirty_down nodeId incoming st =
     fold (\<lambda>dep st'.
             if usedSymbolsUpDirtyDown (deref (assetGraph st') dep)
             then modify nodeId (\<lambda>n. n\<lparr>usedSymbolsUpDirty := True\<rparr>)
                    (modify dep (\<lambda>n. n\<lparr>usedSymbolsUpDirtyDown := False\<rparr>) st')
             else st') incoming st"

text \<open>\<open>for (let dep of outgoing) if (dep.usedSymbolsUpDirtyUp) { node.usedSymbolsUpDirty =
  true; dep.usedSymbolsUpDirtyUp = false; }\<close>\<close>

definition take_dirty_up :: "nat \<Rightarrow> nat list \<Rightarrow> pstate \<Rightarrow> pstate" where
  "take_dirty_up nodeId outgoing st =
     fold (\<lambda>dep st'.
             if usedSymbolsUpDirtyUp (deref (assetGraph st') dep)
             then modify dep (\<lambda>n. n\<lparr>usedSymbolsUpDirtyUp := False\<rparr>)
                    (modify nodeId (\<lambda>n. n\<lparr>usedSymbolsUpDirty := True\<rparr>) st')
             else st') outgoing st"

text \<open>What both traversals do with the diagnostics \<open>e\<close> that the visitor returned for the
  asset \<open>nodeId\<close>; the first update is the log.\<close>

definition record_errors :: "nat \<Rightarrow> diagnostic list \<Rightarrow> pstate \<Rightarrow> pstate" where
  "record_errors nodeId e st =
     (let st1 = st\<lparr>upVisits := upVisits st @ [(nodeId, e)]\<rparr>
      in if e \<noteq> []
         then (modify nodeId (\<lambda>n. n\<lparr>usedSymbolsUpDirty := True\<rparr>) st1)
                \<lparr>errors := AList.update nodeId e (errors st1)\<rparr>
         else (modify nodeId (\<lambda>n. n\<lparr>usedSymbolsUpDirty := False\<rparr>) st1)
                \<lparr>errors := AList.delete nodeId (errors st1)\<rparr>)"

text \<open>
  The full pass: the closure \<open>walk\<close>, with its variables \<open>visited\<close> and \<open>dirtyDeps\<close>. The
  loop over the children takes the recursive call \<open>w\<close> and the type of the node being
  walked; the recursion is bounded by its depth.
\<close>

fun up_for_children ::
  "(nat \<Rightarrow> nat set \<times> nat list \<times> pstate \<Rightarrow> error + (nat set \<times> nat list \<times> pstate))
     \<Rightarrow> nat \<Rightarrow> node_type \<Rightarrow> nat list \<Rightarrow> nat set \<times> nat list \<times> pstate
     \<Rightarrow> error + (nat set \<times> nat list \<times> pstate)" where
  "up_for_children w nodeId ty [] ws = Inr ws"
| "up_for_children w nodeId ty (childId # rest) (vis, dirtyDeps, st) =
     (if childId \<in> vis then up_for_children w nodeId ty rest (vis, dirtyDeps, st)
      else
        (case w childId (insert childId vis, dirtyDeps, st) of
           Inl e \<Rightarrow> Inl e
         | Inr (vis1, dirtyDeps1, st1) \<Rightarrow>
             (case getNode (assetGraph st1) childId of
                None \<Rightarrow> Inl NullThrows
              | Some child \<Rightarrow>
                  if ty = asset
                  then (if node_type child = dependency
                        then up_for_children w nodeId ty rest
                               (vis1, dirtyDeps1,
                                if usedSymbolsUpDirtyUp child
                                then modify childId (\<lambda>n. n\<lparr>usedSymbolsUpDirtyUp := False\<rparr>)
                                       (modify nodeId (\<lambda>n. n\<lparr>usedSymbolsUpDirty := True\<rparr>) st1)
                                else st1)
                        else Inl AssertionFailed)
                  else up_for_children w nodeId ty rest (vis1, dirtyDeps1, st1))))"

text \<open>The part of \<open>walk\<close> after the loop over the children, for an asset.\<close>

definition up_walk_asset ::
  "env \<Rightarrow> up_visitor_fn \<Rightarrow> nat \<Rightarrow> node \<Rightarrow> nat list \<Rightarrow> pstate \<Rightarrow> error + pstate" where
  "up_walk_asset env visit nodeId n outgoing st =
     (case incoming_dependencies env (assetGraph st) n of
        Inl e \<Rightarrow> Inl e
      | Inr incoming \<Rightarrow>
          (let st1 = take_dirty_down nodeId incoming st
           in if usedSymbolsUpDirty (deref (assetGraph st1) nodeId)
              then (case outgoing_dependencies (assetGraph st1) outgoing of
                      Inl e \<Rightarrow> Inl e
                    | Inr outgoingDeps \<Rightarrow>
                        (case visit nodeId incoming outgoingDeps st1 of
                           Inl e \<Rightarrow> Inl e
                         | Inr (e, st2) \<Rightarrow> Inr (record_errors nodeId e st2)))
              else Inr st1))"

primrec up_walk ::
  "nat \<Rightarrow> env \<Rightarrow> up_visitor_fn \<Rightarrow> nat \<Rightarrow> nat set \<times> nat list \<times> pstate
     \<Rightarrow> error + (nat set \<times> nat list \<times> pstate)" where
  "up_walk 0 env visit nodeId ws = Inl OutOfFuel"
| "up_walk (Suc fuel) env visit nodeId ws =
     (case getNode (assetGraph (snd (snd ws))) nodeId of
        None \<Rightarrow> Inl NullThrows
      | Some n \<Rightarrow>
          (case getNodeIdsConnectedFrom (assetGraph (snd (snd ws))) nodeId (OneType 1) of
             Inl e \<Rightarrow> Inl e
           | Inr outgoing \<Rightarrow>
               (case up_for_children (up_walk fuel env visit) nodeId (node_type n) outgoing ws of
                  Inl e \<Rightarrow> Inl e
                | Inr (vis1, dirtyDeps1, st1) \<Rightarrow>
                    if node_type n = asset
                    then (case up_walk_asset env visit nodeId n outgoing st1 of
                            Inl e \<Rightarrow> Inl e
                          | Inr st2 \<Rightarrow> Inr (vis1, dirtyDeps1, st2))
                    else if node_type n = dependency
                    then (if usedSymbolsUpDirtyUp (deref (assetGraph st1) nodeId)
                          then Inr (vis1, set_add nodeId dirtyDeps1, st1)
                          else Inr (vis1, set_delete nodeId dirtyDeps1, st1))
                    else Inr (vis1, dirtyDeps1, st1))))"

text \<open>The body of the \<open>while\<close> loop over the queue, for an asset.\<close>

definition up_step_asset ::
  "env \<Rightarrow> up_visitor_fn \<Rightarrow> nat \<Rightarrow> node \<Rightarrow> nat list \<Rightarrow> pstate \<Rightarrow> error + (nat list \<times> pstate)" where
  "up_step_asset env visit queuedNodeId n queue st =
     (case incoming_dependencies env (assetGraph st) n of
        Inl e \<Rightarrow> Inl e
      | Inr incoming \<Rightarrow>
          (let st1 = take_dirty_down queuedNodeId incoming st
           in case getNodeIdsConnectedFrom (assetGraph st1) queuedNodeId (OneType 1) of
                Inl e \<Rightarrow> Inl e
              | Inr outgoingIds \<Rightarrow>
                  (case outgoing_dependencies (assetGraph st1) outgoingIds of
                     Inl e \<Rightarrow> Inl e
                   | Inr outgoing \<Rightarrow>
                       (let st2 = take_dirty_up queuedNodeId outgoing st1
                        in case (if usedSymbolsUpDirty (deref (assetGraph st2) queuedNodeId)
                                 then (case visit queuedNodeId incoming outgoing st2 of
                                         Inl e \<Rightarrow> Inl e
                                       | Inr (e, st3) \<Rightarrow> Inr (record_errors queuedNodeId e st3))
                                 else Inr st2) of
                             Inl e \<Rightarrow> Inl e
                           | Inr st4 \<Rightarrow>
                               (case fold_err
                                       (\<lambda>i queue'.
                                          if usedSymbolsUpDirtyUp (deref (assetGraph st4) i)
                                          then (case getNodeIdByContentKey (assetGraph st4)
                                                       (node_id (deref (assetGraph st4) i)) of
                                                  Inl e \<Rightarrow> Inl e
                                                | Inr r \<Rightarrow> Inr (set_add r queue'))
                                          else Inr queue') incoming queue of
                                  Inl e \<Rightarrow> Inl e
                                | Inr queue1 \<Rightarrow> Inr (queue1, st4))))))"

text \<open>The body of the \<open>while\<close> loop. \<open>queue.add(...connectedNodes)\<close> adds the first of the
  connected nodes only: \<open>Set.prototype.add\<close> takes one argument.\<close>

definition up_step ::
  "env \<Rightarrow> up_visitor_fn \<Rightarrow> nat list \<Rightarrow> pstate \<Rightarrow> error + (nat list \<times> pstate)" where
  "up_step env visit queue st =
     (case setPop queue of
        Inl e \<Rightarrow> Inl e
      | Inr (queuedNodeId, queue1) \<Rightarrow>
          (case getNode (assetGraph st) queuedNodeId of
             None \<Rightarrow> Inl NullThrows
           | Some n \<Rightarrow>
               if node_type n = asset then up_step_asset env visit queuedNodeId n queue1 st
               else (case getNodeIdsConnectedTo (assetGraph st) queuedNodeId (OneType 1) of
                       Inl e \<Rightarrow> Inl e
                     | Inr connectedNodes \<Rightarrow>
                         (case connectedNodes of
                            [] \<Rightarrow> Inr (queue1, st)
                          | c # other \<Rightarrow> Inr (set_add c queue1, st)))))"

fun up_loop :: "nat \<Rightarrow> env \<Rightarrow> up_visitor_fn \<Rightarrow> nat list \<Rightarrow> pstate \<Rightarrow> error + pstate" where
  "up_loop fuel env visit [] st = Inr st"
| "up_loop 0 env visit (q # queue) st = Inl OutOfFuel"
| "up_loop (Suc fuel) env visit (q # queue) st =
     (case up_step env visit (q # queue) st of
        Inl e \<Rightarrow> Inl e
      | Inr (queue', st') \<Rightarrow> up_loop fuel env visit queue' st')"

text \<open>\<open>previousErrors\<close> without the entries of the nodes that the graph no longer has.\<close>

definition prune_errors ::
  "asset_graph \<Rightarrow> (nat \<times> diagnostic list) list option \<Rightarrow> (nat \<times> diagnostic list) list" where
  "prune_errors g previousErrors =
     (case previousErrors of
        None \<Rightarrow> []
      | Some prev \<Rightarrow> filter (\<lambda>(n, e). hasNode g n) prev)"

definition propagateSymbolsUp ::
  "nat \<Rightarrow> env \<Rightarrow> nat list \<Rightarrow> string list \<Rightarrow> (nat \<times> diagnostic list) list option
     \<Rightarrow> up_visitor_fn \<Rightarrow> pstate \<Rightarrow> error + pstate" where
  "propagateSymbolsUp fuel env changedAssets changedDepsUsedSymbolsUpDirtyDown' previousErrors
       visit st =
     (let st0 = st\<lparr>errors := prune_errors (assetGraph st) previousErrors\<rparr>
      in case map_err (getDependencyResolution (assetGraph st0))
                (rev changedDepsUsedSymbolsUpDirtyDown') of
           Inl e \<Rightarrow> Inl e
         | Inr resolutions \<Rightarrow>
             (let changedDepsUsedSymbolsUpDirtyDownAssets =
                    fold set_add (concat resolutions @ changedAssets) []
              in if runFullPass env (assetGraph st0)
                      (length changedDepsUsedSymbolsUpDirtyDownAssets)
                 then (case rootNodeId (assetGraph st0) of
                         None \<Rightarrow> Inl RootNodeRequired
                       | Some rootNodeId' \<Rightarrow>
                           (case up_walk fuel env visit rootNodeId' ({rootNodeId'}, [], st0) of
                              Inl e \<Rightarrow> Inl e
                            | Inr (vis, dirtyDeps, st1) \<Rightarrow> up_loop fuel env visit dirtyDeps st1))
                 else up_loop fuel env visit changedDepsUsedSymbolsUpDirtyDownAssets st0))"

subsection \<open>\<open>propagateSymbols\<close>\<close>

text \<open>\<open>dep.usedSymbolsUp = new Map([...dep.usedSymbolsUp].sort(([a], [b]) => a - b))\<close>
  for every member of \<open>changedDeps\<close>.\<close>

definition sort_changedDeps :: "pstate \<Rightarrow> pstate" where
  "sort_changedDeps st =
     fold (\<lambda>dep. modify dep (\<lambda>n. n\<lparr>usedSymbolsUp := sort_key fst (usedSymbolsUp n)\<rparr>))
       (changedDeps st) st"

text \<open>
  \<open>propagateSymbols\<close> returns the map \<open>errors\<close>; its model returns the whole final state,
  of which \<open>errors\<close> is that map and \<open>assetGraph\<close> the graph as the call leaves it.
  \<open>changedAssetsPropagation\<close> and \<open>assetGroupsWithRemovedParents\<close> are sets, given as the
  lists of their elements.
\<close>

definition propagateSymbols ::
  "nat \<Rightarrow> env \<Rightarrow> asset_graph \<Rightarrow> string list \<Rightarrow> nat list \<Rightarrow> (nat \<times> diagnostic list) list option
     \<Rightarrow> error + pstate" where
  "propagateSymbols fuel env g changedAssetsPropagation assetGroupsWithRemovedParents
       previousErrors =
     (case map_err (getNodeIdByContentKey g) changedAssetsPropagation of
        Inl e \<Rightarrow> Inl e
      | Inr ids \<Rightarrow>
          (case propagateSymbolsDown fuel env (fold set_add ids [])
                  assetGroupsWithRemovedParents (visit_down env)
                  \<lparr>assetGraph = g, changedDeps = [], changedDepsUsedSymbolsUpDirtyDown = [],
                   errors = [], upVisits = []\<rparr> of
             Inl e \<Rightarrow> Inl e
           | Inr st1 \<Rightarrow>
               (case propagateSymbolsUp fuel env (fold set_add ids [])
                       (changedDepsUsedSymbolsUpDirtyDown st1) previousErrors (visit_up env) st1 of
                  Inl e \<Rightarrow> Inl e
                | Inr st2 \<Rightarrow> Inr (sort_changedDeps st2))))"

subsection \<open>What a propagation leaves as it was\<close>

text \<open>
  \<open>frame_of\<close> forgets the symbol sets, the dirty flags and \<open>excluded\<close> of a node;
  \<open>structure_of\<close> is the graph without them: its node ids in their order, each with the
  type, the content key and the value of its node, its edges, its root, its counter of
  node ids and its index of content keys.
\<close>

definition frame_of :: "node \<Rightarrow> node" where
  "frame_of n =
     n\<lparr>usedSymbols := [], usedSymbolsDown := [], usedSymbolsUp := [],
       usedSymbolsDownDirty := False, usedSymbolsUpDirty := False,
       usedSymbolsUpDirtyDown := False, usedSymbolsUpDirtyUp := False, excluded := False\<rparr>"

definition structure_of :: "asset_graph \<Rightarrow> asset_graph" where
  "structure_of g = g\<lparr>nodes := map (\<lambda>(r, n). (r, frame_of n)) (nodes g)\<rparr>"

text \<open>
  \<open>down_rest\<close> forgets the fields of a node that the down traversal and its visitor write,
  \<open>up_rest\<close> those that the up traversal and its visitor write. A view \<open>P\<close> of the state
  is \<open>down_writes_ok\<close> when no write of the down traversal changes it, and \<open>up_writes_ok\<close>
  when no write of the visitor of the up traversal does.
\<close>

definition down_rest :: "node \<Rightarrow> node" where
  "down_rest n =
     n\<lparr>usedSymbols := [], usedSymbolsDown := [], usedSymbolsDownDirty := False,
       usedSymbolsUpDirtyDown := False\<rparr>"

definition up_rest :: "node \<Rightarrow> node" where
  "up_rest n =
     n\<lparr>usedSymbols := [], usedSymbolsUp := [], usedSymbolsUpDirty := False,
       usedSymbolsUpDirtyDown := False, usedSymbolsUpDirtyUp := False, excluded := False\<rparr>"

definition down_writes_ok :: "(pstate \<Rightarrow> 'a) \<Rightarrow> bool" where
  "down_writes_ok P =
     ((\<forall>r f st. (\<forall>n. down_rest (f n) = down_rest n) \<longrightarrow> P (modify r f st) = P st)
      \<and> (\<forall>h st. P (st\<lparr>changedDepsUsedSymbolsUpDirtyDown := h\<rparr>) = P st))"

definition up_writes_ok :: "(pstate \<Rightarrow> 'a) \<Rightarrow> bool" where
  "up_writes_ok P =
     ((\<forall>r f st. (\<forall>n. up_rest (f n) = up_rest n) \<longrightarrow> P (modify r f st) = P st)
      \<and> (\<forall>h st. P (st\<lparr>changedDeps := h\<rparr>) = P st))"

text \<open>
  \<open>flag_rest\<close> forgets the three dirty flags that the up traversal itself writes. A
  property \<open>Q\<close> of the state is \<open>up_traversal_ok\<close> for a visitor when the writes of these
  flags, the visitor and the recording of the visitor's diagnostics keep it.
\<close>

definition flag_rest :: "node \<Rightarrow> node" where
  "flag_rest n =
     n\<lparr>usedSymbolsUpDirty := False, usedSymbolsUpDirtyDown := False,
       usedSymbolsUpDirtyUp := False\<rparr>"

definition up_traversal_ok ::
  "(pstate \<Rightarrow> bool)
     \<Rightarrow> (nat \<Rightarrow> nat list \<Rightarrow> nat list \<Rightarrow> pstate \<Rightarrow> error + (diagnostic list \<times> pstate)) \<Rightarrow> bool" where
  "up_traversal_ok Q visit =
     ((\<forall>r f st. (\<forall>n. flag_rest (f n) = flag_rest n) \<longrightarrow> Q st \<longrightarrow> Q (modify r f st))
      \<and> (\<forall>r e st. Q st \<longrightarrow> Q (record_errors r e st))
      \<and> (\<forall>a i out st e st'. visit a i out st = Inr (e, st') \<longrightarrow> Q st \<longrightarrow> Q st'))"

text \<open>
  The frame by node type. \<open>typed_frame\<close> forgets, of an asset or a dependency, what
  \<open>frame_of\<close> forgets, of an asset group its \<open>usedSymbolsDownDirty\<close> (\<open>group_rest\<close>), and
  nothing of a node of any other type.
\<close>

definition group_rest :: "node \<Rightarrow> node" where
  "group_rest n = n\<lparr>usedSymbolsDownDirty := False\<rparr>"

definition typed_frame :: "node \<Rightarrow> node" where
  "typed_frame n =
     (if node_type n = asset \<or> node_type n = dependency then frame_of n
      else if node_type n = asset_group then group_rest n
      else n)"

text \<open>
  With respect to a graph \<open>g\<close>: a reference is \<open>writable\<close> when its node in \<open>g\<close> is an
  asset or a dependency; \<open>types_as g st\<close> says that every node of the state has the type it
  has in \<open>g\<close>. A view \<open>P\<close> of the state is \<open>typed_writes_ok\<close> when it is the same after a
  write to a writable node that \<open>frame_of\<close> does not see, after a write to an asset group
  that \<open>group_rest\<close> does not see, after a writable reference is added to \<open>changedDeps\<close>,
  and after any update of the other variables of the state. \<open>typed_view g\<close> is the view used:
  of every node what its type in \<open>g\<close> keeps, and the members of \<open>changedDeps\<close> that are
  not writable.
\<close>

definition writable :: "asset_graph \<Rightarrow> nat \<Rightarrow> bool" where
  "writable g r = (node_type (deref g r) = asset \<or> node_type (deref g r) = dependency)"

definition types_as :: "asset_graph \<Rightarrow> pstate \<Rightarrow> bool" where
  "types_as g st = (\<forall>r. node_type (deref (assetGraph st) r) = node_type (deref g r))"

definition typed_writes_ok :: "asset_graph \<Rightarrow> (pstate \<Rightarrow> 'a) \<Rightarrow> bool" where
  "typed_writes_ok g P =
     ((\<forall>r f st. writable g r \<longrightarrow> (\<forall>n. frame_of (f n) = frame_of n) \<longrightarrow> P (modify r f st) = P st)
      \<and> (\<forall>r f st. node_type (deref g r) = asset_group \<longrightarrow> (\<forall>n. group_rest (f n) = group_rest n)
            \<longrightarrow> P (modify r f st) = P st)
      \<and> (\<forall>d st. writable g d \<longrightarrow> P (st\<lparr>changedDeps := set_add d (changedDeps st)\<rparr>) = P st)
      \<and> (\<forall>h st. P (st\<lparr>changedDepsUsedSymbolsUpDirtyDown := h\<rparr>) = P st)
      \<and> (\<forall>h st. P (st\<lparr>errors := h\<rparr>) = P st)
      \<and> (\<forall>h st. P (st\<lparr>upVisits := h\<rparr>) = P st))"

definition typed_view :: "asset_graph \<Rightarrow> pstate \<Rightarrow> (nat \<Rightarrow> node) \<times> nat list" where
  "typed_view g st =
     ((\<lambda>r. if writable g r then frame_of (deref (assetGraph st) r)
           else if node_type (deref g r) = asset_group then group_rest (deref (assetGraph st) r)
           else deref (assetGraph st) r),
      filter (\<lambda>d. \<not> writable g d) (changedDeps st))"

subsection \<open>Properties of the callback log, and sample inputs\<close>

text \<open>
  \<open>trace_ok evs stp\<close>: in the log \<open>evs\<close> no callback follows one that called \<open>stop\<close>,
  and \<open>stp\<close> tells whether the last one did.
\<close>

definition trace_ok :: "'c event list \<Rightarrow> bool \<Rightarrow> bool" where
  "trace_ok evs stp =
     (if stp then evs \<noteq> [] \<and> ev_stop (last evs) \<and> (\<forall>x \<in> set (butlast evs). \<not> ev_stop x)
      else (\<forall>x \<in> set evs. \<not> ev_stop x))"

text \<open>\<open>steps st st'\<close>: \<open>st'\<close> extends the log of \<open>st\<close> by callbacks that found their node
  in the graph, none of them after a \<open>stop\<close>.\<close>

definition steps :: "('c, 'g, 'u) walk_state \<Rightarrow> ('c, 'g, 'u) walk_state \<Rightarrow> bool" where
  "steps st st' =
     (\<exists>evs. trace st' = trace st @ evs \<and> trace_ok evs (stopped st')
            \<and> (\<forall>e \<in> set evs. ev_present e))"

text \<open>\<open>stop_result r st'\<close>: the traversal returned normally, and with the context of the
  last callback unless the \<open>skipped\<close> flag is set.\<close>

definition stop_result :: "(error + 'c option) \<Rightarrow> ('c, 'g, 'u) walk_state \<Rightarrow> bool" where
  "stop_result r st' =
     ((\<exists>c. r = Inr c) \<and> (\<not> skipped st' \<longrightarrow> r = Inr (ev_context (last (trace st')))))"

definition no_action :: "'c option \<Rightarrow> 'g \<Rightarrow> 'u \<Rightarrow> ('c, 'g, 'u) cb_out" where
  "no_action ret g u =
     \<lparr>returned = ret, calledSkipChildren = False, calledStop = False, graphAfter = g, userAfter = u\<rparr>"

text \<open>\<open>enter\<close> returns the node id as the new context and stops at node 1.\<close>

definition stop_at_one_visitor :: "(nat, nat graph, unit) visitor" where
  "stop_at_one_visitor =
     VisitObject
       (Some (\<lambda>nodeId context g u. (no_action (Some nodeId) g u)\<lparr>calledStop := (nodeId = 1)\<rparr>))
       (Some (\<lambda>nodeId context g u. no_action None g u))"

text \<open>\<open>enter\<close> returns the new context 7 and calls both \<open>skipChildren\<close> and \<open>stop\<close>.\<close>

definition skip_and_stop_visitor :: "(nat, nat graph, unit) visitor" where
  "skip_and_stop_visitor =
     VisitObject
       (Some (\<lambda>nodeId context g u.
                (no_action (Some 7) g u)\<lparr>calledSkipChildren := True, calledStop := True\<rparr>))
       (Some (\<lambda>nodeId context g u. no_action None g u))"

text \<open>\<open>enter\<close> calls \<open>skipChildren\<close> at node 1; \<open>exit\<close> returns the new context 7, and
  calls \<open>stop\<close> at node 0.\<close>

definition stale_skip_visitor :: "(nat, nat graph, unit) visitor" where
  "stale_skip_visitor =
     VisitObject
       (Some (\<lambda>nodeId context g u. (no_action None g u)\<lparr>calledSkipChildren := (nodeId = 1)\<rparr>))
       (Some (\<lambda>nodeId context g u. (no_action (Some 7) g u)\<lparr>calledStop := (nodeId = 0)\<rparr>))"

text \<open>\<open>enter\<close> of node 2 deletes node 1 from the node map.\<close>

definition remove_one_visitor :: "(nat, nat graph, unit) visitor" where
  "remove_one_visitor =
     VisitObject
       (Some (\<lambda>nodeId context g u.
                no_action None (if nodeId = 2 then g\<lparr>nodes := AList.delete 1 (nodes g)\<rparr> else g) u))
       (Some (\<lambda>nodeId context g u. no_action None g u))"

definition children_of :: "nat graph \<Rightarrow> nat \<Rightarrow> error + nat list" where
  "children_of g nodeId = getNodeIdsConnectedFrom g nodeId (OneType 1)"

text \<open>The chain \<open>0 \<rightarrow> 1 \<rightarrow> 2\<close> with root 0.\<close>

definition chain_graph :: "nat graph" where
  "chain_graph =
     \<lparr>nodes = [(0, 0), (1, 1), (2, 2)], adjacencyList = [(0, 1, 1), (1, 2, 1)],
      rootNodeId = Some 0, nextNodeId = 3\<rparr>"

text \<open>Root 0 with \<open>0 \<rightarrow> 1 \<rightarrow> 2\<close>, and node 2 with the edges \<open>2 \<rightarrow> 3\<close>, \<open>2 \<rightarrow> 4\<close> and
  \<open>3 \<rightarrow> 4\<close>.\<close>

definition diamond_graph :: "nat graph" where
  "diamond_graph =
     \<lparr>nodes = [(0, 0), (1, 1), (2, 2), (3, 3), (4, 4)],
      adjacencyList = [(0, 1, 1), (1, 2, 1), (2, 3, 1), (2, 4, 1), (3, 4, 1)],
      rootNodeId = Some 0, nextNodeId = 5\<rparr>"

subsection \<open>A sample asset graph\<close>

text \<open>
  \<open>incoming_of\<close> is a stand-in for \<open>AssetGraph.getIncomingDependencies\<close>: the content
  keys of the dependencies connected to the asset, directly or through an asset group.
\<close>

definition incoming_of :: "asset_graph \<Rightarrow> nat \<Rightarrow> string list" where
  "incoming_of g v =
     concat (map (\<lambda>(r, n).
        if node_type n = asset \<and> node_value n = v
        then concat (map (\<lambda>p. case getNode g p of
                                 None \<Rightarrow> []
                               | Some pn \<Rightarrow>
                                   if node_type pn = dependency then [node_id pn]
                                   else concat (map (\<lambda>q. case getNode g q of
                                                           None \<Rightarrow> []
                                                         | Some qn \<Rightarrow>
                                                             if node_type qn = dependency
                                                             then [node_id qn] else [])
                                          (al_getNodesConnectedTo (adjacencyList g) p (OneType 1))))
               (al_getNodesConnectedTo (adjacencyList g) r (OneType 1)))
        else []) (nodes g))"

definition mk_node :: "node_type \<Rightarrow> string \<Rightarrow> nat \<Rightarrow> node" where
  "mk_node ty key v = null_node\<lparr>node_type := ty, node_id := key, node_value := v\<rparr>"

definition dirty_asset :: "string \<Rightarrow> nat \<Rightarrow> node" where
  "dirty_asset key v =
     (mk_node asset key v)\<lparr>usedSymbolsDownDirty := True, usedSymbolsUpDirty := True\<rparr>"

definition dirty_dep :: "string \<Rightarrow> nat \<Rightarrow> nat list \<Rightarrow> node" where
  "dirty_dep key v down =
     (mk_node dependency key v)\<lparr>usedSymbolsDown := down, usedSymbolsDownDirty := True,
        usedSymbolsUpDirtyDown := True, usedSymbolsUpDirtyUp := True\<rparr>"

definition mk_symbol :: "nat \<Rightarrow> nat \<Rightarrow> bool \<Rightarrow> symbol_decl" where
  "mk_symbol e l weak =
     \<lparr>exported = e, local = l, sym_flags = (if weak then 1 else 0), loc = None\<rparr>"

definition mk_asset :: "symbol_decl list option \<Rightarrow> string \<Rightarrow> asset_value" where
  "mk_asset ss path =
     \<lparr>symbols = ss, filePath = path, flags = 0, bundleBehavior = ''none'', assetType = ''js''\<rparr>"

definition mk_dep :: "symbol_decl list option \<Rightarrow> nat option \<Rightarrow> dependency_value" where
  "mk_dep ss src =
     \<lparr>dep_symbols = ss, dep_flags = (if ss = None then 0 else 1), sourceAssetId = src,
      specifier = ''./x''\<rparr>"

text \<open>
  Scenario 1 of the spec. The symbols are \<open>*\<close> = 0, \<open>default\<close> = 1 and \<open>bar\<close> = 5. The
  root has the dependency \<open>d1\<close>, which requests \<open>bar\<close> from the asset \<open>a\<close>; \<open>a\<close>
  reexports \<open>bar\<close> (its local name is 6) through the dependency \<open>d2\<close> on the asset
  \<open>b\<close>, which exports \<open>bar\<close>. All nodes are new: their dirty flags are set.
\<close>

definition reexport_env :: env where
  "reexport_env =
     \<lparr>db_asset = (\<lambda>v. if v = 10 then mk_asset (Some [mk_symbol 5 6 False]) ''a.js''
                        else mk_asset (Some [mk_symbol 5 7 False]) ''b.js''),
      db_dependency = (\<lambda>v. if v = 1 then mk_dep (Some [mk_symbol 5 5 False]) None
                             else mk_dep (Some [mk_symbol 5 6 True]) (Some 10)),
      starSymbol = 0, defaultSymbol = 1, flag_SIDE_EFFECTS = 4, flag_HAS_SYMBOLS = 1,
      flag_IS_WEAK = 1, getIncomingDependencies = incoming_of, runFullPass = (\<lambda>g n. False)\<rparr>"

definition reexport_graph :: asset_graph where
  "reexport_graph =
     \<lparr>nodes = [(0, mk_node root ''root'' 0), (1, dirty_dep ''d1'' 1 [5]),
               (2, dirty_asset ''a'' 10), (3, dirty_dep ''d2'' 2 []), (4, dirty_asset ''b'' 11)],
      adjacencyList = [(0, 1, 1), (1, 2, 1), (2, 3, 1), (3, 4, 1)],
      rootNodeId = Some 0, nextNodeId = 5,
      contentKeyToNodeId = [(''root'', 0), (''d1'', 1), (''a'', 2), (''d2'', 3), (''b'', 4)]\<rparr>"

text \<open>
  Scenario 1 with an entry dependency \<open>d1\<close> that is not new: none of its dirty flags is
  set.
\<close>

definition settled_entry_graph :: asset_graph where
  "settled_entry_graph =
     reexport_graph\<lparr>nodes :=
       AList.update 1 ((mk_node dependency ''d1'' 1)\<lparr>usedSymbolsDown := [5]\<rparr>)
         (nodes reexport_graph)\<rparr>"

text \<open>
  Scenario 1 with an asset group between the dependency \<open>d2\<close> and the asset \<open>b\<close>. All
  nodes are new; the group has \<open>usedSymbolsDownDirty\<close> set.
\<close>

definition group_graph :: asset_graph where
  "group_graph =
     \<lparr>nodes = [(0, mk_node root ''root'' 0), (1, dirty_dep ''d1'' 1 [5]),
               (2, dirty_asset ''a'' 10), (3, dirty_dep ''d2'' 2 []),
               (4, (mk_node asset_group ''g'' 0)\<lparr>usedSymbolsDownDirty := True\<rparr>),
               (5, dirty_asset ''b'' 11)],
      adjacencyList = [(0, 1, 1), (1, 2, 1), (2, 3, 1), (3, 4, 1), (4, 5, 1)],
      rootNodeId = Some 0, nextNodeId = 6,
      contentKeyToNodeId =
        [(''root'', 0), (''d1'', 1), (''a'', 2), (''d2'', 3), (''g'', 4), (''b'', 5)]\<rparr>"

definition group_run :: "error + pstate" where
  "group_run = propagateSymbols 50 reexport_env group_graph [''a'', ''b''] [] None"

subsection \<open>The log of the up traversal, and a graph with a missing export\<close>



text \<open>
  Scenario 2 of the spec: the graph of scenario 1, but the asset \<open>b\<close> exports \<open>foo\<close> = 7
  only. \<open>old_errors\<close> are the errors of an earlier build, one of them for a node 9 that
  the graph no longer has.
\<close>

definition missing_env :: env where
  "missing_env =
     reexport_env\<lparr>db_asset :=
       (\<lambda>v. if v = 10 then mk_asset (Some [mk_symbol 5 6 False]) ''a.js''
            else mk_asset (Some [mk_symbol 7 8 False]) ''b.js'')\<rparr>"




subsection \<open>Graphs with two symbols\<close>

text \<open>
  The asset \<open>a\<close> of \<open>external_graph\<close> is the entry of the build and imports the symbols
  6 and 5, in this order, through the dependency \<open>d2\<close>, which resolves to nothing (an
  external module). All nodes are new.
\<close>

definition external_env :: env where
  "external_env =
     reexport_env\<lparr>db_asset := (\<lambda>v. mk_asset (Some []) ''a.js''),
       db_dependency :=
         (\<lambda>v. if v = 1 then mk_dep None None
              else mk_dep (Some [mk_symbol 6 6 False, mk_symbol 5 5 False]) (Some 10))\<rparr>"

definition external_graph :: asset_graph where
  "external_graph =
     \<lparr>nodes = [(0, mk_node root ''root'' 0), (1, dirty_dep ''d1'' 1 []),
               (2, dirty_asset ''a'' 10), (3, dirty_dep ''d2'' 2 [])],
      adjacencyList = [(0, 1, 1), (1, 2, 1), (2, 3, 1)],
      rootNodeId = Some 0, nextNodeId = 4,
      contentKeyToNodeId = [(''root'', 0), (''d1'', 1), (''a'', 2), (''d2'', 3)]\<rparr>"

text \<open>
  In \<open>two_exports_graph\<close> the dependency \<open>d1\<close> requests the symbols 6 and 5, in this
  order, from the asset \<open>a\<close>, which exports both.
\<close>

definition two_exports_env :: env where
  "two_exports_env =
     reexport_env\<lparr>db_asset :=
         (\<lambda>v. mk_asset (Some [mk_symbol 6 6 False, mk_symbol 5 5 False]) ''a.js''),
       db_dependency :=
         (\<lambda>v. mk_dep (Some [mk_symbol 6 6 False, mk_symbol 5 5 False]) None)\<rparr>"

definition two_exports_graph :: asset_graph where
  "two_exports_graph =
     \<lparr>nodes = [(0, mk_node root ''root'' 0), (1, dirty_dep ''d1'' 1 [6, 5]),
               (2, dirty_asset ''a'' 10)],
      adjacencyList = [(0, 1, 1), (1, 2, 1)],
      rootNodeId = Some 0, nextNodeId = 3,
      contentKeyToNodeId = [(''root'', 0), (''d1'', 1), (''a'', 2)]\<rparr>"

definition two_exports_run :: "error + pstate" where
  "two_exports_run = propagateSymbols 50 two_exports_env two_exports_graph [''a''] [] None"

text \<open>
  An asset that has changed since the last build: by the comment of \<open>propagateSymbols\<close>,
  the members of \<open>changedAssetsPropagation\<close> come with \<open>usedSymbolsDownDirty\<close> set, and the
  up traversal calls its visitor on a member only if it has \<open>usedSymbolsUpDirty\<close> set.
\<close>

definition mark_changed :: "nat \<Rightarrow> asset_graph \<Rightarrow> asset_graph" where
  "mark_changed r g =
     modify_node r (\<lambda>n. n\<lparr>usedSymbolsDownDirty := True, usedSymbolsUpDirty := True\<rparr>) g"

text \<open>The database of \<open>external_graph\<close> when the asset \<open>a\<close> imports the one symbol \<open>s\<close>
  through \<open>d2\<close>.\<close>

definition one_import_env :: "nat \<Rightarrow> env" where
  "one_import_env s =
     external_env\<lparr>db_dependency :=
         (\<lambda>v. if v = 1 then mk_dep None None
              else mk_dep (Some [mk_symbol s s False]) (Some 10))\<rparr>"

section \<open>Theorems\<close>

subsection \<open>The callback log of a traversal\<close>

lemma steps_refl: "trace st' = trace st \<Longrightarrow> \<not> stopped st' \<Longrightarrow> steps st st'"
  by (simp add: steps_def trace_ok_def)

lemma steps_trans:
  assumes "steps st st1" and "\<not> stopped st1" and "steps st1 st2"
  shows "steps st st2"
proof -
  from assms(1,2) obtain evs1 where 1: "trace st1 = trace st @ evs1"
    "\<forall>x \<in> set evs1. \<not> ev_stop x" "\<forall>e \<in> set evs1. ev_present e"
    by (auto simp: steps_def trace_ok_def)
  from assms(3) obtain evs2 where 2: "trace st2 = trace st1 @ evs2"
    "trace_ok evs2 (stopped st2)" "\<forall>e \<in> set evs2. ev_present e"
    by (auto simp: steps_def)
  have "trace_ok (evs1 @ evs2) (stopped st2)"
    using 1(2) 2(2) by (auto simp: trace_ok_def butlast_append)
  with 1 2 show ?thesis
    unfolding steps_def by (intro exI[of _ "evs1 @ evs2"]) auto
qed

lemma steps_call_cb:
  assumes "\<not> stopped st" and "hasNode (ws_graph st) n" and "call_cb k cb n ctx st = (c, st')"
  shows "steps st st'"
  using assms unfolding steps_def call_cb_def Let_def trace_ok_def
  by (intro exI[of _ "[\<lparr>ev_kind = k, ev_node = n, ev_present = True,
        ev_stop = calledStop (cb n ctx (ws_graph st) (ws_user st)),
        ev_context = (case returned (cb n ctx (ws_graph st) (ws_user st)) of None \<Rightarrow> ctx | Some c \<Rightarrow> Some c)\<rparr>]"]) auto

lemma call_cb_context:
  assumes "call_cb k cb n ctx st = (c, st')"
  shows "ev_context (last (trace st')) = c"
  using assms unfolding call_cb_def Let_def by auto

lemma steps_for_children:
  assumes W: "\<And>n ctx st r st'. \<not> stopped st \<Longrightarrow> w n ctx st = (r, st') \<Longrightarrow> steps st st'"
  shows "\<not> stopped st \<Longrightarrow> for_children w cs ctx st = (r, st') \<Longrightarrow> steps st st'"
proof (induction cs arbitrary: st)
  case Nil
  then show ?case by (simp add: steps_refl)
next
  case (Cons child rest)
  show ?case
  proof (cases "child \<in> visited st")
    case True
    with Cons show ?thesis by simp
  next
    case False
    obtain r1 st1 where w1: "w child ctx (st\<lparr>visited := insert child (visited st)\<rparr>) = (r1, st1)"
      by (cases "w child ctx (st\<lparr>visited := insert child (visited st)\<rparr>)")
    have "steps (st\<lparr>visited := insert child (visited st)\<rparr>) st1"
      using W[OF _ w1] Cons.prems(1) by simp
    then have s1: "steps st st1" by (simp add: steps_def)
    show ?thesis
    proof (cases r1)
      case (Inl e)
      with Cons.prems False w1 s1 show ?thesis by simp
    next
      case (Inr res)
      show ?thesis
      proof (cases "stopped st1")
        case True
        with Cons.prems False w1 s1 Inr show ?thesis by simp
      next
        case nst: False
        with Cons.prems False w1 Inr have "for_children w rest ctx st1 = (r, st')" by simp
        from Cons.IH[OF nst this] s1 nst show ?thesis by (rule steps_trans[rotated 2])
      qed
    qed
  qed
qed


lemma for_children_done:
  "\<not> stopped st \<Longrightarrow> for_children w cs ctx st = (Inr None, st') \<Longrightarrow> \<not> stopped st'"
  by (induction cs arbitrary: st) (auto split: if_splits prod.splits sum.splits)

lemma steps_walk:
  "\<not> stopped st \<Longrightarrow> walk fuel visit gc n ctx st = (r, st') \<Longrightarrow> steps st st'"
proof (induction fuel arbitrary: n ctx st r st')
  case 0
  then show ?case by (simp add: steps_refl)
next
  case (Suc fuel)
  show ?case
  proof (cases "hasNode (ws_graph st) n")
    case False
    with Suc.prems show ?thesis by (simp add: steps_refl)
  next
    case present: True
    let ?st1 = "st\<lparr>visited := insert n (visited st), skipped := False\<rparr>"
    obtain c1 st2 where en: "(case enter_of visit of None \<Rightarrow> (ctx, ?st1)
        | Some enter \<Rightarrow> call_cb Enter enter n ctx ?st1) = (c1, st2)"
      by (cases "(case enter_of visit of None \<Rightarrow> (ctx, ?st1)
        | Some enter \<Rightarrow> call_cb Enter enter n ctx ?st1)")
    have "steps ?st1 st2"
    proof (cases "enter_of visit")
      case None
      with en Suc.prems(1) show ?thesis by (auto simp: steps_refl)
    next
      case (Some enter)
      with en have "call_cb Enter enter n ctx ?st1 = (c1, st2)" by simp
      then show ?thesis using steps_call_cb[of ?st1 n Enter enter ctx c1 st2] Suc.prems(1) present
        by simp
    qed
    then have s2: "steps st st2" by (simp add: steps_def)
    show ?thesis
    proof (cases "skipped st2 \<or> stopped st2")
      case True
      with Suc.prems(2) present en s2 show ?thesis by (auto split: if_splits)
    next
      case go: False
      show ?thesis
      proof (cases "gc (ws_graph st2) n")
        case (Inl e)
        with Suc.prems(2) present en s2 go show ?thesis by simp
      next
        case (Inr children)
        obtain r3 st3 where fc: "for_children (walk fuel visit gc) children c1 st2 = (r3, st3)"
          by (cases "for_children (walk fuel visit gc) children c1 st2")
        have s3': "steps st2 st3"
          using steps_for_children[of "walk fuel visit gc", OF Suc.IH _ fc] go by simp
        have s3: "steps st st3" using s2 go s3' by (auto intro: steps_trans)
        show ?thesis
        proof (cases r3)
          case (Inl e)
          with Suc.prems(2) present en go Inr fc s3 show ?thesis by simp
        next
          case r3: (Inr ro)
          show ?thesis
          proof (cases ro)
            case (Some result)
            with Suc.prems(2) present en go Inr fc s3 r3 show ?thesis by simp
          next
            case None
            have nst3: "\<not> stopped st3"
              using for_children_done[of st2 "walk fuel visit gc" children c1 st3] go fc r3 None
              by simp
            obtain c2 st4 where ex: "(case exit_of visit of None \<Rightarrow> (c1, st3)
                | Some exit \<Rightarrow> if hasNode (ws_graph st3) n
                    then call_cb Exit exit n c1 st3 else (c1, st3)) = (c2, st4)"
              by (cases "(case exit_of visit of None \<Rightarrow> (c1, st3)
                | Some exit \<Rightarrow> if hasNode (ws_graph st3) n
                    then call_cb Exit exit n c1 st3 else (c1, st3))")
            have "steps st3 st4"
            proof (cases "exit_of visit")
              case None
              with ex nst3 show ?thesis by (auto simp: steps_refl)
            next
              case (Some exit)
              show ?thesis
              proof (cases "hasNode (ws_graph st3) n")
                case True
                with ex Some have "call_cb Exit exit n c1 st3 = (c2, st4)" by simp
                then show ?thesis using steps_call_cb nst3 True by blast
              next
                case False
                with ex Some nst3 show ?thesis by (auto simp: steps_refl)
              qed
            qed
            with s3 nst3 have s4: "steps st st4" by (auto intro: steps_trans)
            have "st' = st4"
              using Suc.prems(2) present en go Inr fc r3 None ex
              by (auto split: if_splits)
            with s4 show ?thesis by simp
          qed
        qed
      qed
    qed
  qed
qed


lemma call_cb_stopped:
  "call_cb k cb n ctx st = (c, st') \<Longrightarrow> stopped st' \<Longrightarrow>
     stop_result (if skipped st' then Inr None else Inr c) st'"
  by (auto simp: stop_result_def call_cb_def Let_def)

lemma result_for_children:
  assumes W: "\<And>n ctx st r st'. \<not> stopped st \<Longrightarrow> w n ctx st = (r, st') \<Longrightarrow> stopped st'
                \<Longrightarrow> stop_result r st'"
  shows "\<not> stopped st \<Longrightarrow> for_children w cs ctx st = (r, st') \<Longrightarrow> stopped st'
           \<Longrightarrow> \<exists>res. r = Inr (Some res) \<and> stop_result (Inr res) st'"
proof (induction cs arbitrary: st)
  case Nil
  then show ?case by simp
next
  case (Cons child rest)
  show ?case
  proof (cases "child \<in> visited st")
    case True
    with Cons show ?thesis by simp
  next
    case False
    obtain r1 st1 where w1: "w child ctx (st\<lparr>visited := insert child (visited st)\<rparr>) = (r1, st1)"
      by (cases "w child ctx (st\<lparr>visited := insert child (visited st)\<rparr>)")
    show ?thesis
    proof (cases "stopped st1")
      case True
      have sr: "stop_result r1 st1"
        using W[OF _ w1 True] Cons.prems(1) by simp
      then obtain c where "r1 = Inr c" by (auto simp: stop_result_def)
      with Cons.prems False w1 True sr show ?thesis by auto
    next
      case nst: False
      show ?thesis
      proof (cases r1)
        case (Inl e)
        with Cons.prems False w1 nst show ?thesis by simp
      next
        case (Inr res)
        with Cons.prems False w1 nst have "for_children w rest ctx st1 = (r, st')" by simp
        from Cons.IH[OF nst this Cons.prems(3)] show ?thesis .
      qed
    qed
  qed
qed

lemma result_walk:
  "\<not> stopped st \<Longrightarrow> walk fuel visit gc n ctx st = (r, st') \<Longrightarrow> stopped st'
     \<Longrightarrow> stop_result r st'"
proof (induction fuel arbitrary: n ctx st r st')
  case 0
  then show ?case by simp
next
  case (Suc fuel)
  show ?case
  proof (cases "hasNode (ws_graph st) n")
    case False
    with Suc.prems show ?thesis by simp
  next
    case present: True
    let ?st1 = "st\<lparr>visited := insert n (visited st), skipped := False\<rparr>"
    obtain c1 st2 where en: "(case enter_of visit of None \<Rightarrow> (ctx, ?st1)
        | Some enter \<Rightarrow> call_cb Enter enter n ctx ?st1) = (c1, st2)"
      by (cases "(case enter_of visit of None \<Rightarrow> (ctx, ?st1)
        | Some enter \<Rightarrow> call_cb Enter enter n ctx ?st1)")
    have e2: "stopped st2 \<Longrightarrow> stop_result (if skipped st2 then Inr None else Inr c1) st2"
    proof (cases "enter_of visit")
      case None
      assume "stopped st2"
      with en None Suc.prems(1) show ?thesis by auto
    next
      case (Some enter)
      assume "stopped st2"
      with en Some show ?thesis using call_cb_stopped by fastforce
    qed
    show ?thesis
    proof (cases "skipped st2 \<or> stopped st2")
      case True
      with Suc.prems(2,3) present en e2 show ?thesis by (auto split: if_splits)
    next
      case go: False
      show ?thesis
      proof (cases "gc (ws_graph st2) n")
        case (Inl e)
        with Suc.prems(2,3) present en go show ?thesis by simp
      next
        case (Inr children)
        obtain r3 st3 where fc: "for_children (walk fuel visit gc) children c1 st2 = (r3, st3)"
          by (cases "for_children (walk fuel visit gc) children c1 st2")
        have r3s: "stopped st3 \<Longrightarrow> \<exists>res. r3 = Inr (Some res) \<and> stop_result (Inr res) st3"
          using result_for_children[of "walk fuel visit gc", OF Suc.IH _ fc] go by simp
        show ?thesis
        proof (cases r3)
          case (Inl e)
          with Suc.prems(2,3) present en go Inr fc r3s show ?thesis by auto
        next
          case r3: (Inr ro)
          show ?thesis
          proof (cases ro)
            case (Some result)
            with Suc.prems(2,3) present en go Inr fc r3 r3s show ?thesis by auto
          next
            case None
            have nst3: "\<not> stopped st3"
              using for_children_done[of st2 "walk fuel visit gc" children c1 st3] go fc r3 None
              by simp
            obtain c2 st4 where ex: "(case exit_of visit of None \<Rightarrow> (c1, st3)
                | Some exit \<Rightarrow> if hasNode (ws_graph st3) n
                    then call_cb Exit exit n c1 st3 else (c1, st3)) = (c2, st4)"
              by (cases "(case exit_of visit of None \<Rightarrow> (c1, st3)
                | Some exit \<Rightarrow> if hasNode (ws_graph st3) n
                    then call_cb Exit exit n c1 st3 else (c1, st3))")
            have e4: "stopped st4 \<Longrightarrow> stop_result (if skipped st4 then Inr None else Inr c2) st4"
            proof (cases "exit_of visit")
              case None
              assume "stopped st4"
              with ex None nst3 show ?thesis by auto
            next
              case (Some exit)
              assume st: "stopped st4"
              show ?thesis
              proof (cases "hasNode (ws_graph st3) n")
                case True
                with ex Some have "call_cb Exit exit n c1 st3 = (c2, st4)" by simp
                then show ?thesis using call_cb_stopped st by fastforce
              next
                case False
                with ex Some nst3 st show ?thesis by auto
              qed
            qed
            have "st' = st4" "r = (if skipped st4 then Inr None else if stopped st4 then Inr c2 else Inr None)"
              using Suc.prems(2) present en go Inr fc r3 None ex
              by (auto split: if_splits)
            with e4 Suc.prems(3) show ?thesis by auto
          qed
        qed
      qed
    qed
  qed
qed


text \<open>
  C7. The setters of \<open>isBundleSplittable\<close> and \<open>sideEffects\<close> only OR the flag bit into the
  flags: whatever the flags were and whatever boolean is assigned, \<open>false\<close> included, every
  bit that was set stays set, the flag bit is set, nothing else of the asset value changes,
  and (the flag constant being a non-zero bit mask) the getter then returns \<open>true\<close>.
\<close>

theorem setters_only_or_in_flag:
  assumes "IS_BUNDLE_SPLITTABLE \<noteq> 0" and "SIDE_EFFECTS \<noteq> 0"
  shows "get_isBundleSplittable IS_BUNDLE_SPLITTABLE
           (set_isBundleSplittable IS_BUNDLE_SPLITTABLE b v)
       \<and> get_sideEffects SIDE_EFFECTS (set_sideEffects SIDE_EFFECTS b v)
       \<and> set_isBundleSplittable IS_BUNDLE_SPLITTABLE b v
           = v\<lparr>flags := flags v OR IS_BUNDLE_SPLITTABLE\<rparr>
       \<and> set_sideEffects SIDE_EFFECTS b v = v\<lparr>flags := flags v OR SIDE_EFFECTS\<rparr>
       \<and> flags (set_isBundleSplittable IS_BUNDLE_SPLITTABLE b v) AND flags v = flags v
       \<and> flags (set_sideEffects SIDE_EFFECTS b v) AND flags v = flags v"
proof -
  have absorb: "(x OR m) AND m = m" "(x OR m) AND x = x" for x m :: "32 word"
    by (auto simp add: bit_eq_iff bit_and_iff bit_or_iff)
  show ?thesis
    using assms
    by (simp add: get_isBundleSplittable_def get_sideEffects_def get_flag_def
        set_isBundleSplittable_def set_sideEffects_def absorb)
qed

theorem setters_only_or_in_flag_witness:
  "(2 :: 32 word) \<noteq> 0 \<and> (8 :: 32 word) \<noteq> 0
   \<and> get_isBundleSplittable 2
       (set_isBundleSplittable 2 False \<lparr>symbols = None, filePath = ''a.js'', flags = 0, bundleBehavior = ''none'',
        assetType = ''js''\<rparr>)
   \<and> get_sideEffects 8
       (set_sideEffects 8 False \<lparr>symbols = None, filePath = ''a.js'', flags = 0, bundleBehavior = ''none'',
        assetType = ''js''\<rparr>)"
proof -
  have h1: "(2 :: 32 word) \<noteq> 0" and h2: "(8 :: 32 word) \<noteq> 0"
    by simp_all
  from setters_only_or_in_flag [OF h1 h2, of False
      "\<lparr>symbols = None, filePath = ''a.js'', flags = 0, bundleBehavior = ''none'',
        assetType = ''js''\<rparr>"]
  show ?thesis
    using h1 h2 by blast
qed

text \<open>
  C1. \<open>bfs\<close> hands the root id to the visitor at every step, not the dequeued node. On the
  graph \<open>0 \<rightarrow> 1\<close> with root 0 and a visitor that answers \<open>true\<close> at node 1, the claim makes
  \<open>bfs\<close> return node 1 after calling the visitor on 0 and 1; the code calls the visitor on
  0 twice and returns \<open>null\<close>.
\<close>

theorem bfs_visits_root_only:
  "bfs 5 two_node_graph is_one_visitor [] = (Inr None, [0, 0])"
  by (simp add: bfs_def two_node_graph_def is_one_visitor_def getNodeIdsConnectedFrom_def
      hasNode_def al_getNodesConnectedFrom_def enqueue_children_def numeral_nat)

text \<open>
  C5. Removing the edge \<open>1 \<rightarrow> 2\<close> of \<open>diamond_graph\<close> with \<open>removeOrphans = true\<close> orphans
  node 2, so \<open>removeNode(2)\<close> runs over a snapshot of the outbound edges of 2. Removing the
  first of them, \<open>2 \<rightarrow> 3\<close>, cascades through node 3 to node 4 and removes the edge
  \<open>2 \<rightarrow> 4\<close>, which is still in the snapshot: the next \<open>removeEdge\<close> throws, and node 2,
  which has no path from the root left, stays in the graph.
\<close>

theorem removeEdge_cascade_throws:
  "removeEdge 10 diamond_graph 1 2 1 True
     = (Some (EdgeNotFound 2 4),
        \<lparr>nodes = [(0, 0), (1, 1), (2, 2)], adjacencyList = [(0, 1, 1)],
         rootNodeId = Some 0, nextNodeId = 5\<rparr>)
   \<and> isOrphanedNode 10 (snd (removeEdge 10 diamond_graph 1 2 1 True)) 2 = Inr True
   \<and> hasNode (snd (removeEdge 10 diamond_graph 1 2 1 True)) 2"
  by code_simp

text \<open>
  C6. \<open>walk\<close> resets \<open>skipped\<close> only where it starts on a node, and after a callback it
  tests \<open>skipped\<close> before \<open>stopped\<close>. On the graph \<open>0 \<rightarrow> 1\<close>, \<open>enter\<close> of node 1 calls
  \<open>skipChildren\<close>, so the walk of node 1 returns and leaves the flag set. The \<open>exit\<close> of node
  0 then returns the context 7 and calls \<open>stop\<close>: it is the last callback invoked, but the
  stale flag makes \<open>walk\<close> take \<open>if (skipped) return\<close> and \<open>dfs\<close> returns \<open>undefined\<close>
  where \<open>if (stopped) return context\<close> was to return 7.
\<close>

theorem dfs_stop_after_stale_skip_returns_undefined:
  "map (\<lambda>e. (ev_kind e, ev_node e, ev_stop e, ev_context e))
     (trace (snd (dfs 5 two_node_graph stale_skip_visitor None children_of ())))
     = [(Enter, 0, False, None), (Enter, 1, False, None), (Exit, 0, True, Some 7)]
   \<and> stopped (snd (dfs 5 two_node_graph stale_skip_visitor None children_of ()))
   \<and> skipped (snd (dfs 5 two_node_graph stale_skip_visitor None children_of ()))
   \<and> fst (dfs 5 two_node_graph stale_skip_visitor None children_of ()) = Inr None"
  by code_simp

text \<open>
  The same test order loses the context when one callback calls both actions: a visitor
  whose \<open>enter\<close> returns the new context 7 and calls \<open>skipChildren\<close> and \<open>stop\<close> makes
  \<open>dfs\<close> return \<open>undefined\<close>.
\<close>

theorem dfs_stop_with_skip_returns_undefined:
  "stopped (snd (dfs 5 two_node_graph skip_and_stop_visitor None children_of ()))
   \<and> ev_stop (last (trace (snd (dfs 5 two_node_graph skip_and_stop_visitor None children_of ()))))
   \<and> ev_context (last (trace (snd (dfs 5 two_node_graph skip_and_stop_visitor None children_of ()))))
       = Some 7
   \<and> fst (dfs 5 two_node_graph skip_and_stop_visitor None children_of ()) = Inr None"
  by code_simp

text \<open>
  What \<open>stop\<close> does do. Once a callback of the visitor has called \<open>stop\<close>, no further
  callback (enter or exit, of any node) is invoked: a callback that called \<open>stop\<close> is the
  last entry of the log. \<open>dfs\<close> then returns normally, whatever the recursion bound, and
  the value it returns is the context current at that callback in the runs that end with
  the \<open>skipped\<close> flag not set.
\<close>

theorem dfs_stop_aborts:
  fixes g :: "('n, 'z) graph_scheme" and visit :: "('c, ('n, 'z) graph_scheme, 'u) visitor"
  assumes "dfs fuel g visit startNodeId getChildren u = (r, st)"
  shows "(\<forall>pre e post. trace st = pre @ e # post \<and> ev_stop e \<longrightarrow> post = [])
       \<and> ((\<exists>e \<in> set (trace st). ev_stop e) \<longrightarrow>
            (\<exists>c. r = Inr c) \<and> (\<not> skipped st \<longrightarrow> r = Inr (ev_context (last (trace st)))))"
proof -
  let ?init = "init_walk_state g u :: ('c, ('n, 'z) graph_scheme, 'u) walk_state"
  have init: "\<not> stopped ?init" "trace ?init = []"
    by (simp_all add: init_walk_state_def)
  have st: "steps ?init st"
    using assms init steps_walk[of ?init fuel visit getChildren _ None r st]
    by (auto simp: dfs_def steps_refl split: option.splits if_splits)
  then have ok: "trace_ok (trace st) (stopped st)"
    using init by (simp add: steps_def)
  have res: "stopped st \<Longrightarrow> stop_result r st"
    using assms init result_walk[of ?init fuel visit getChildren _ None r st]
    by (auto simp: dfs_def split: option.splits if_splits)
  have a: "post = []" if "trace st = pre @ e # post" "ev_stop e" for pre e post
  proof (rule ccontr)
    assume "post \<noteq> []"
    with that(1) have "e \<in> set (butlast (trace st))"
      by (simp add: butlast_append)
    with ok that show False
      by (auto simp: trace_ok_def split: if_splits)
  qed
  have b: "stopped st" if "\<exists>e \<in> set (trace st). ev_stop e"
    using ok that by (auto simp: trace_ok_def split: if_splits)
  show ?thesis
    using a b res by (auto simp: stop_result_def)
qed

theorem dfs_stop_aborts_witness:
  "ev_stop (last (trace (snd (dfs 5 chain_graph stop_at_one_visitor None children_of ()))))
   \<and> \<not> skipped (snd (dfs 5 chain_graph stop_at_one_visitor None children_of ()))
   \<and> map (\<lambda>e. (ev_kind e, ev_node e, ev_stop e))
         (trace (snd (dfs 5 chain_graph stop_at_one_visitor None children_of ())))
       = [(Enter, 0, False), (Enter, 1, True)]
   \<and> fst (dfs 5 chain_graph stop_at_one_visitor None children_of ()) = Inr (Some 1)
   \<and> fst (dfs 5 chain_graph stop_at_one_visitor None children_of ())
       = Inr (ev_context (last (trace (snd (dfs 5 chain_graph stop_at_one_visitor None
                                             children_of ())))))"
proof -
  have ev: "ev_stop (last (trace (snd (dfs 5 chain_graph stop_at_one_visitor None children_of ()))))"
    "\<not> skipped (snd (dfs 5 chain_graph stop_at_one_visitor None children_of ()))"
    "map (\<lambda>e. (ev_kind e, ev_node e, ev_stop e))
         (trace (snd (dfs 5 chain_graph stop_at_one_visitor None children_of ())))
       = [(Enter, 0, False), (Enter, 1, True)]"
    "fst (dfs 5 chain_graph stop_at_one_visitor None children_of ()) = Inr (Some 1)"
    by code_simp+
  have "trace (snd (dfs 5 chain_graph stop_at_one_visitor None children_of ())) \<noteq> []"
    using ev(3) by auto
  with ev(1) have ex: "\<exists>e \<in> set (trace (snd (dfs 5 chain_graph stop_at_one_visitor None
      children_of ()))). ev_stop e"
    using last_in_set by blast
  from dfs_stop_aborts [OF prod.collapse [symmetric],
      of 5 chain_graph stop_at_one_visitor None children_of "()"] ev ex
  show ?thesis by blast
qed

text \<open>
  C10. Every callback that \<open>dfs\<close> invokes, enter or exit, finds its node in the graph at
  the moment of the call: when a visitor has removed a node between the node's enter and
  its exit, the exit callback of that node is not invoked. And walking a node that the
  graph does not have returns \<open>undefined\<close> at once, leaving every variable of the traversal
  as it was and invoking no callback.
\<close>

theorem dfs_skips_removed_nodes:
  fixes g :: "('n, 'z) graph_scheme" and visit :: "('c, ('n, 'z) graph_scheme, 'u) visitor"
  shows "(dfs fuel g visit startNodeId getChildren u = (r, st)
            \<longrightarrow> (\<forall>e \<in> set (trace st). ev_present e))
       \<and> (\<not> hasNode (ws_graph st0) nodeId \<longrightarrow>
            walk (Suc fuel') visit' getChildren' nodeId context st0 = (Inr None, st0))"
proof -
  let ?init = "init_walk_state g u :: ('c, ('n, 'z) graph_scheme, 'u) walk_state"
  have init: "\<not> stopped ?init" "trace ?init = []"
    by (simp_all add: init_walk_state_def)
  have "\<forall>e \<in> set (trace st). ev_present e"
    if "dfs fuel g visit startNodeId getChildren u = (r, st)"
  proof -
    have "steps ?init st"
      using that init steps_walk[of ?init fuel visit getChildren _ None r st]
      by (auto simp: dfs_def steps_refl split: option.splits if_splits)
    then show ?thesis
      using init by (simp add: steps_def)
  qed
  then show ?thesis by simp
qed

theorem dfs_skips_removed_nodes_witness:
  "map (\<lambda>e. (ev_kind e, ev_node e))
     (trace (snd (dfs 5 chain_graph remove_one_visitor None children_of ())))
     = [(Enter, 0), (Enter, 1), (Enter, 2), (Exit, 2), (Exit, 0)]
   \<and> ev_present (trace (snd (dfs 5 chain_graph remove_one_visitor None children_of ())) ! 3)
   \<and> \<not> hasNode (ws_graph (init_walk_state two_node_graph ())) 2
   \<and> walk (Suc 4) stop_at_one_visitor children_of 2 None (init_walk_state two_node_graph ())
       = (Inr None, init_walk_state two_node_graph ())"
proof -
  have ev: "map (\<lambda>e. (ev_kind e, ev_node e))
     (trace (snd (dfs 5 chain_graph remove_one_visitor None children_of ())))
     = [(Enter, 0), (Enter, 1), (Enter, 2), (Exit, 2), (Exit, 0)]"
    "\<not> hasNode (ws_graph (init_walk_state two_node_graph ())) 2"
    by code_simp+
  have len: "length (trace (snd (dfs 5 chain_graph remove_one_visitor None children_of ()))) = 5"
    using arg_cong [OF ev(1), of length] by simp
  have pc: "dfs 5 chain_graph remove_one_visitor None children_of ()
      = (fst (dfs 5 chain_graph remove_one_visitor None children_of ()),
         snd (dfs 5 chain_graph remove_one_visitor None children_of ()))"
    by simp
  note inst = dfs_skips_removed_nodes [of 5 chain_graph remove_one_visitor None children_of "()"
      "fst (dfs 5 chain_graph remove_one_visitor None children_of ())"
      "snd (dfs 5 chain_graph remove_one_visitor None children_of ())"
      "init_walk_state two_node_graph ()" 2 4 stop_at_one_visitor children_of None]
  from inst pc have "\<forall>e \<in> set (trace (snd (dfs 5 chain_graph remove_one_visitor None
      children_of ()))). ev_present e"
    by (rule mp [OF conjunct1])
  with len have 1: "ev_present (trace (snd (dfs 5 chain_graph remove_one_visitor None
      children_of ())) ! 3)"
    by simp
  from inst ev(2) have 2: "walk (Suc 4) stop_at_one_visitor children_of 2 None
      (init_walk_state two_node_graph ()) = (Inr None, init_walk_state two_node_graph ())"
    by (rule mp [OF conjunct2])
  from ev 1 2 show ?thesis
    by (intro conjI)
qed

subsection \<open>What the traversals and their visitors keep\<close>

lemma fold_pres: "(\<And>x s. P (f x s) = P s) \<Longrightarrow> P (fold f xs s) = P s"
  by (induction xs arbitrary: s) auto

lemma fold_pres_pair:
  assumes "fold f xs (l, s) = (l', s')"
    and "\<And>x l s l' s'. f x (l, s) = (l', s') \<Longrightarrow> P s' = P s"
  shows "P s' = P s"
  using assms(1)
proof (induction xs arbitrary: l s)
  case Nil
  then show ?case by simp
next
  case (Cons x xs)
  obtain l1 s1 where 1: "f x (l, s) = (l1, s1)" by (cases "f x (l, s)")
  with Cons.prems have "fold f xs (l1, s1) = (l', s')" by simp
  from Cons.IH[OF this] assms(2)[OF 1] show ?case by simp
qed

lemma fold_err_pres:
  assumes "fold_err f xs s = Inr s'"
    and "\<And>x s s'. f x s = Inr s' \<Longrightarrow> P s' = P s"
  shows "P s' = P s"
  using assms(1)
proof (induction xs arbitrary: s)
  case Nil
  then show ?case by simp
next
  case (Cons x xs)
  then obtain s1 where 1: "f x s = Inr s1" and 2: "fold_err f xs s1 = Inr s'"
    by (auto split: sum.splits)
  from Cons.IH[OF 2] assms(2)[OF 1] show ?case by simp
qed

lemma fold_err_pres_pair:
  assumes "fold_err f xs (l, s) = Inr (l', s')"
    and "\<And>x l s l' s'. f x (l, s) = Inr (l', s') \<Longrightarrow> P s' = P s"
  shows "P s' = P s"
  using fold_err_pres[of f xs "(l, s)" "(l', s')" "\<lambda>ls. P (snd ls)"] assms
  by fastforce

lemma down_ok_modify:
  assumes "down_writes_ok P" and "\<And>n. down_rest (f n) = down_rest n"
  shows "P (modify r f st) = P st"
  using assms unfolding down_writes_ok_def by blast

lemma down_ok_changed:
  assumes "down_writes_ok P"
  shows "P (st\<lparr>changedDepsUsedSymbolsUpDirtyDown := c\<rparr>) = P st"
  using assms unfolding down_writes_ok_def by blast

lemma down_add_usedSymbol: "down_writes_ok P \<Longrightarrow> P (add_usedSymbol a s st) = P st"
  by (simp add: add_usedSymbol_def down_ok_modify down_rest_def)

lemma down_delete_usedSymbol: "down_writes_ok P \<Longrightarrow> P (delete_usedSymbol a s st) = P st"
  by (simp add: delete_usedSymbol_def down_ok_modify down_rest_def)

lemma down_request_symbol:
  "down_writes_ok P \<Longrightarrow> request_symbol env a syms ns x (l, st) = (l', st') \<Longrightarrow> P st' = P st"
  by (auto simp: request_symbol_def down_add_usedSymbol split: option.splits if_splits)

lemma down_request_from_dep:
  assumes ok: "down_writes_ok P"
    and run: "request_from_dep env a syms ns d (l, st) = (l', st')"
  shows "P st' = P st"
proof -
  have F: "P s1 = P s0"
    if "fold (request_symbol env a syms ns) xs (l0, s0) = (l1, s1)" for xs l0 s0 l1 s1
    using that by (rule fold_pres_pair) (erule down_request_symbol[OF ok])
  show ?thesis
    using run F unfolding request_from_dep_def Let_def
    by (auto split: if_splits)
qed

lemma down_determine_requested:
  assumes ok: "down_writes_ok P"
    and run: "determine_requested env a syms ns incoming st = Inr (l, st')"
  shows "P st' = P st"
proof -
  let ?st0 = "modify a (\<lambda>n. n\<lparr>usedSymbols := []\<rparr>) st"
  let ?step1 = "(if incoming = []
            then (\<lparr>isEntry = False, addAll = False,
                   namespaceReexportedSymbols = set_add (starSymbol env) []\<rparr>,
                  add_usedSymbol a (starSymbol env) ?st0)
            else fold (request_from_dep env a syms ns) incoming
                   (\<lparr>isEntry = False, addAll = False, namespaceReexportedSymbols = []\<rparr>, ?st0))"
  have 0: "P ?st0 = P st"
    by (simp add: down_ok_modify[OF ok] down_rest_def)
  have 2: "P (fold (\<lambda>sy. add_usedSymbol a (exported sy)) xs s) = P s" for xs s
    by (rule fold_pres) (rule down_add_usedSymbol[OF ok])
  have F: "P s1 = P s0"
    if "fold (request_from_dep env a syms ns) xs (l0, s0) = (l1, s1)" for xs l0 s0 l1 s1
    using that by (rule fold_pres_pair) (erule down_request_from_dep[OF ok])
  obtain l1 st1 where 1: "?step1 = (l1, st1)"
    by (cases ?step1)
  have p1: "P st1 = P ?st0"
  proof (cases "incoming = []")
    case True
    with 1 show ?thesis by (auto simp: down_add_usedSymbol[OF ok])
  next
    case False
    with 1 show ?thesis by (auto dest: F)
  qed
  from run have "(if addAll l1
          then (case syms of
                  None \<Rightarrow> Inl TypeError
                | Some ss \<Rightarrow>
                    Inr (l1, fold (\<lambda>sy. add_usedSymbol a (exported sy)) ss st1))
          else Inr (l1, st1)) = Inr (l, st')"
    unfolding determine_requested_def 1 by simp
  then have "P st' = P st1"
    using 2 by (auto split: if_splits option.splits)
  with p1 0 show ?thesis by simp
qed

lemma down_distribute_symbol:
  assumes ok: "down_writes_ok P"
    and run: "distribute_symbol env a inv' sy (d, st) = (d', st')"
  shows "P st' = P st"
proof -
  have 2: "P (fold (delete_usedSymbol a) xs s) = P s" for xs s
    by (rule fold_pres) (rule down_delete_usedSymbol[OF ok])
  show ?thesis
    using run unfolding distribute_symbol_def Let_def
    by (auto simp: 2 split: if_splits option.splits)
qed

lemma down_mark_outgoing:
  assumes ok: "down_writes_ok P"
  shows "P (mark_outgoing dep old new st) = P st"
  unfolding mark_outgoing_def Let_def
  by (simp add: down_ok_modify[OF ok] down_ok_changed[OF ok] down_rest_def)

lemma down_distribute_to_dep:
  assumes ok: "down_writes_ok P"
  shows "P (distribute_to_dep env a asset' inv' l dep st) = P st"
proof -
  have 0: "P (modify dep (\<lambda>n. n\<lparr>usedSymbolsDown := h\<rparr>) s) = P s" for h s
    by (simp add: down_ok_modify[OF ok] down_rest_def)
  have F: "P s1 = P s0"
    if "fold (distribute_symbol env a inv') xs (l0, s0) = (l1, s1)" for xs l0 s0 l1 s1
    using that by (rule fold_pres_pair) (erule down_distribute_symbol[OF ok])
  show ?thesis
    unfolding distribute_to_dep_def Let_def
    using F
    by (auto simp: down_mark_outgoing[OF ok] 0 split: option.splits prod.splits)
qed

lemma down_visit_down:
  assumes ok: "down_writes_ok P"
    and run: "visit_down env a incoming outgoing st = Inr st'"
  shows "P st' = P st"
proof -
  have 2: "P (fold (distribute_to_dep env a asset' inv' l) xs s) = P s" for asset' inv' l xs s
    by (rule fold_pres) (rule down_distribute_to_dep[OF ok])
  show ?thesis
    using run unfolding visit_down_def Let_def
    by (auto simp: 2 split: sum.splits dest: down_determine_requested[OF ok])
qed

lemma down_down_child:
  assumes ok: "down_writes_ok P"
    and run: "down_child dirty child (q, st) = Inr (q', st')"
  shows "P st' = P st"
  using run unfolding down_child_def
  by (auto simp: down_ok_modify[OF ok] down_rest_def split: option.splits if_splits)

lemma down_down_node:
  assumes ok: "down_writes_ok P"
    and vis: "\<forall>a i out s s'. visit a i out s = Inr s' \<longrightarrow> P s' = P s"
    and run: "down_node env visit r outgoing n st = Inr (dirty, st')"
  shows "P st' = P st"
proof -
  have 0: "P (modify r (\<lambda>n. n\<lparr>usedSymbolsDownDirty := False\<rparr>) s) = P s" for s
    by (simp add: down_ok_modify[OF ok] down_rest_def)
  from run have "st' = st \<or> st' = modify r (\<lambda>n. n\<lparr>usedSymbolsDownDirty := False\<rparr>) st
      \<or> (\<exists>i out s1. visit r i out st = Inr s1
            \<and> st' = modify r (\<lambda>n. n\<lparr>usedSymbolsDownDirty := False\<rparr>) s1)"
    unfolding down_node_def by (auto split: sum.splits if_splits)
  then show ?thesis
    using 0 vis by auto
qed

lemma down_down_step:
  assumes ok: "down_writes_ok P"
    and vis: "\<forall>a i out s s'. visit a i out s = Inr s' \<longrightarrow> P s' = P s"
    and run: "down_step env visit queue unreached st = Inr (queue', unreached', st')"
  shows "P st' = P st"
proof -
  have F: "P s1 = P s0"
    if "fold_err (down_child dirty) xs (l0, s0) = Inr (l1, s1)" for dirty xs l0 s0 l1 s1
    using that by (rule fold_err_pres_pair) (erule down_down_child[OF ok])
  from run obtain r outgoing n dirty st1 q1 q2 where
    1: "down_node env visit r outgoing n st = Inr (dirty, st1)"
    and 2: "fold_err (down_child dirty) outgoing (q1, st1) = Inr (q2, st')"
    unfolding down_step_def
    by (auto split: sum.splits option.splits if_splits prod.splits)
  from F[OF 2] down_down_node[OF ok vis 1] show ?thesis by simp
qed

lemma down_down_loop:
  assumes ok: "down_writes_ok P"
    and vis: "\<forall>a i out s s'. visit a i out s = Inr s' \<longrightarrow> P s' = P s"
  shows "down_loop fuel env visit queue unreached st = Inr st' \<Longrightarrow> P st' = P st"
proof (induction fuel arbitrary: queue unreached st)
  case 0
  then show ?case by (cases queue) auto
next
  case (Suc fuel)
  show ?case
  proof (cases queue)
    case Nil
    with Suc.prems show ?thesis by simp
  next
    case (Cons q qs)
    with Suc.prems obtain queue' unreached' st1 where
      1: "down_step env visit queue unreached st = Inr (queue', unreached', st1)"
      and 2: "down_loop fuel env visit queue' unreached' st1 = Inr st'"
      by (auto split: sum.splits)
    from Suc.IH[OF 2] down_down_step[OF ok vis 1] show ?thesis by simp
  qed
qed

lemma down_propagateSymbolsDown:
  assumes ok: "down_writes_ok P"
    and vis: "\<forall>a i out s s'. visit a i out s = Inr s' \<longrightarrow> P s' = P s"
    and run: "propagateSymbolsDown fuel env changed groups visit st = Inr st'"
  shows "P st' = P st"
proof -
  from run have "st' = st \<or> (\<exists>q u. down_loop fuel env visit q u st = Inr st')"
    unfolding propagateSymbolsDown_def
    by (auto split: if_splits sum.splits)
  then show ?thesis
    using down_down_loop[OF ok vis] by auto
qed


lemma up_ok_modify:
  assumes "up_writes_ok P" and "\<And>n. up_rest (f n) = up_rest n"
  shows "P (modify r f st) = P st"
  using assms unfolding up_writes_ok_def by blast

lemma up_ok_changed:
  assumes "up_writes_ok P"
  shows "P (st\<lparr>changedDeps := c\<rparr>) = P st"
  using assms unfolding up_writes_ok_def by blast

lemma up_add_usedSymbol: "up_writes_ok P \<Longrightarrow> P (add_usedSymbol a s st) = P st"
  by (simp add: add_usedSymbol_def up_ok_modify up_rest_def)

lemma up_record_reexport:
  "up_writes_ok P \<Longrightarrow> record_reexport env a s r (re, st) = (re', st') \<Longrightarrow> P st' = P st"
  by (auto simp: record_reexport_def up_add_usedSymbol split: if_splits)

lemma up_assume_excluded: "up_writes_ok P \<Longrightarrow> P (assume_excluded dep st) = P st"
  unfolding assume_excluded_def
  by (rule fold_pres) (simp add: up_ok_modify up_rest_def)

lemma up_namespace_reexports:
  assumes ok: "up_writes_ok P"
    and run: "namespace_reexports env a dep (re, st) = (re', st')"
  shows "P st' = P st"
  using run unfolding namespace_reexports_def snd_conv
  by (rule fold_pres_pair) (auto split: if_splits dest: up_record_reexport[OF ok])

lemma up_named_reexport:
  assumes ok: "up_writes_ok P"
    and run: "named_reexport env a inv' syms down entry (re, st) = (re', st')"
  shows "P st' = P st"
proof -
  have F: "P s1 = P s0"
    if "fold (\<lambda>r. record_reexport env a r sResolved) xs (l0, s0) = (l1, s1)"
    for sResolved xs l0 s0 l1 s1
    using that by (rule fold_pres_pair) (erule up_record_reexport[OF ok])
  show ?thesis
    using run unfolding named_reexport_def
    by (auto split: prod.splits if_splits option.splits dest: F)
qed

lemma up_named_reexports:
  assumes ok: "up_writes_ok P"
    and run: "named_reexports env a inv' syms dep (re, st) = (re', st')"
  shows "P st' = P st"
  using run unfolding named_reexports_def snd_conv
  by (rule fold_pres_pair) (erule up_named_reexport[OF ok])

lemma up_collect_reexports:
  assumes ok: "up_writes_ok P"
    and run: "collect_reexports env a inv' dep (re, st) = Inr (re', st')"
  shows "P st' = P st"
proof (cases "dep_symbols (db_dependency env (node_value (deref (assetGraph st) dep)))")
  case None
  with run show ?thesis by (simp add: collect_reexports_def)
next
  case (Some syms)
  with run obtain st1 where 1: "st1 = st \<or> st1 = assume_excluded dep st"
    and 2: "named_reexports env a inv' syms dep
              (if star_reexport (starSymbol env) (Some syms)
               then namespace_reexports env a dep (re, st1) else (re, st1)) = (re', st')"
    unfolding collect_reexports_def
    by (auto split: sum.splits if_splits)
  obtain re2 st2 where 3: "(if star_reexport (starSymbol env) (Some syms)
               then namespace_reexports env a dep (re, st1) else (re, st1)) = (re2, st2)"
    by (cases "(if star_reexport (starSymbol env) (Some syms)
               then namespace_reexports env a dep (re, st1) else (re, st1))")
  have p1: "P st1 = P st"
    using 1 up_assume_excluded[OF ok] by auto
  have p2: "P st2 = P st1"
    using 3 up_namespace_reexports[OF ok] by (auto split: if_splits)
  have "P st' = P st2"
    using 2 unfolding 3 by (rule up_named_reexports[OF ok])
  with p1 p2 show ?thesis by simp
qed

lemma up_resolve_symbol:
  assumes ok: "up_writes_ok P"
    and run: "resolve_symbol env a asset' re ns dep old s (errs, st) = Inr (errs', st')"
  shows "P st' = P st"
  using run unfolding resolve_symbol_def
  by (auto simp: up_ok_modify[OF ok] up_rest_def split: if_splits sum.splits)

lemma up_update_excluded:
  assumes ok: "up_writes_ok P"
    and run: "update_excluded env dep st = Inr st'"
  shows "P st' = P st"
proof -
  have 0: "P (modify dep (\<lambda>n. n\<lparr>excluded := b\<rparr>) s) = P s" for b s
    by (simp add: up_ok_modify[OF ok] up_rest_def)
  from run have "st' = modify dep (\<lambda>n. n\<lparr>excluded := False\<rparr>) st
      \<or> st' = modify dep (\<lambda>n. n\<lparr>excluded := True\<rparr>) (modify dep (\<lambda>n. n\<lparr>excluded := False\<rparr>) st)"
    unfolding update_excluded_def Let_def
    by (auto split: if_splits sum.splits list.splits option.splits)
  with 0 show ?thesis by auto
qed

lemma up_resolve_incoming:
  assumes ok: "up_writes_ok P"
    and run: "resolve_incoming env a asset' re dep (errs, st) = Inr (errs', st')"
  shows "P st' = P st"
proof -
  let ?st0 = "modify dep (\<lambda>n. n\<lparr>usedSymbolsUp := []\<rparr>) st"
  have 0: "P ?st0 = P st"
    by (simp add: up_ok_modify[OF ok] up_rest_def)
  have F: "P s1 = P s0"
    if "fold_err (resolve_symbol env a asset' re ns dep old) xs (l0, s0) = Inr (l1, s1)"
    for ns old xs l0 s0 l1 s1
    using that by (rule fold_err_pres_pair) (erule up_resolve_symbol[OF ok])
  have M: "P ((modify dep (\<lambda>n. n\<lparr>usedSymbolsUpDirtyUp := True\<rparr>) s)\<lparr>changedDeps := c\<rparr>) = P s"
    for s c
    by (simp add: up_ok_modify[OF ok] up_ok_changed[OF ok] up_rest_def)
  show ?thesis
  proof (cases "dep_symbols (db_dependency env (node_value (deref (assetGraph st) dep)))")
    case None
    with run 0 show ?thesis by (auto simp: resolve_incoming_def Let_def)
  next
    case (Some syms)
    with run obtain errs1 st1 where
      1: "fold_err (resolve_symbol env a asset' re (star_reexport (starSymbol env) (Some syms))
              dep (usedSymbolsUp (deref (assetGraph st) dep)))
            (usedSymbolsDown (deref (assetGraph ?st0) dep)) (errs, ?st0) = Inr (errs1, st1)"
      and 3: "update_excluded env dep
                (if \<not> equalMap (usedSymbolsUp (deref (assetGraph st) dep))
                        (usedSymbolsUp (deref (assetGraph st1) dep))
                 then (modify dep (\<lambda>n. n\<lparr>usedSymbolsUpDirtyUp := True\<rparr>) st1)
                        \<lparr>changedDeps := set_add dep (changedDeps st1)\<rparr>
                 else st1) = Inr st'"
      unfolding resolve_incoming_def Let_def
      by (auto split: sum.splits)
    have "P st' = P st1"
      using up_update_excluded[OF ok 3] M by (simp split: if_splits)
    with F[OF 1] 0 show ?thesis by simp
  qed
qed

lemma up_visit_up:
  assumes ok: "up_writes_ok P"
    and run: "visit_up env a incoming outgoing st = Inr (e, st')"
  shows "P st' = P st"
proof -
  from run obtain re st1 where
    1: "fold_err (collect_reexports env a
          (map_option assetSymbolsInverse
             (symbols (db_asset env (node_value (deref (assetGraph st) a))))))
          outgoing ([], st) = Inr (re, st1)"
    and 2: "fold_err (resolve_incoming env a
          (db_asset env (node_value (deref (assetGraph st) a))) re) incoming ([], st1)
          = Inr (e, st')"
    unfolding visit_up_def Let_def by (auto split: sum.splits)
  have "P st1 = P st"
    using 1 by (rule fold_err_pres_pair) (erule up_collect_reexports[OF ok])
  moreover have "P st' = P st1"
    using 2 by (rule fold_err_pres_pair) (erule up_resolve_incoming[OF ok])
  ultimately show ?thesis by simp
qed


lemma fold_inv: "(\<And>x s. Q s \<Longrightarrow> Q (f x s)) \<Longrightarrow> Q s \<Longrightarrow> Q (fold f xs s)"
  by (induction xs arbitrary: s) auto

lemma tr_ok_modify:
  assumes "up_traversal_ok Q visit" and "\<And>n. flag_rest (f n) = flag_rest n" and "Q st"
  shows "Q (modify r f st)"
  using assms unfolding up_traversal_ok_def by blast

lemma tr_ok_record:
  assumes "up_traversal_ok Q visit" and "Q st"
  shows "Q (record_errors r e st)"
  using assms unfolding up_traversal_ok_def by blast

lemma tr_ok_visit:
  assumes "up_traversal_ok Q visit" and "visit a i out st = Inr (e, st')" and "Q st"
  shows "Q st'"
  using assms unfolding up_traversal_ok_def by blast

lemma tr_take_dirty_down:
  assumes ok: "up_traversal_ok Q visit" and "Q st"
  shows "Q (take_dirty_down r incoming st)"
  unfolding take_dirty_down_def
  by (rule fold_inv) (auto simp: assms flag_rest_def intro!: tr_ok_modify[OF ok])

lemma tr_take_dirty_up:
  assumes ok: "up_traversal_ok Q visit" and "Q st"
  shows "Q (take_dirty_up r outgoing st)"
  unfolding take_dirty_up_def
  by (rule fold_inv) (auto simp: assms flag_rest_def intro!: tr_ok_modify[OF ok])

lemma tr_up_for_children:
  assumes ok: "up_traversal_ok Q visit"
    and w: "\<forall>n vis dd s vis' dd' s'. w n (vis, dd, s) = Inr (vis', dd', s') \<longrightarrow> Q s \<longrightarrow> Q s'"
  shows "up_for_children w r ty children (vis, dd, st) = Inr (vis', dd', st') \<Longrightarrow> Q st \<Longrightarrow> Q st'"
proof (induction children arbitrary: vis dd st)
  case Nil
  then show ?case by simp
next
  case (Cons c rest)
  show ?case
  proof (cases "c \<in> vis")
    case True
    with Cons show ?thesis by simp
  next
    case False
    with Cons.prems obtain vis1 dd1 st1 where
      1: "w c (insert c vis, dd, st) = Inr (vis1, dd1, st1)"
      and 2: "up_for_children w r ty rest (vis1, dd1,
                (if ty = asset \<and> usedSymbolsUpDirtyUp (deref (assetGraph st1) c)
                 then modify c (\<lambda>n. n\<lparr>usedSymbolsUpDirtyUp := False\<rparr>)
                        (modify r (\<lambda>n. n\<lparr>usedSymbolsUpDirty := True\<rparr>) st1)
                 else st1)) = Inr (vis', dd', st')"
      by (auto simp: deref_def split: sum.splits option.splits if_splits)
    have q1: "Q st1"
      using w 1 Cons.prems(2) by blast
    have "Q (if ty = asset \<and> usedSymbolsUpDirtyUp (deref (assetGraph st1) c)
                 then modify c (\<lambda>n. n\<lparr>usedSymbolsUpDirtyUp := False\<rparr>)
                        (modify r (\<lambda>n. n\<lparr>usedSymbolsUpDirty := True\<rparr>) st1)
                 else st1)"
      using q1 by (auto simp: flag_rest_def intro!: tr_ok_modify[OF ok])
    from Cons.IH[OF 2 this] show ?thesis .
  qed
qed

lemma tr_up_walk_asset:
  assumes ok: "up_traversal_ok Q visit"
    and run: "up_walk_asset env visit r n outgoing st = Inr st'" and q: "Q st"
  shows "Q st'"
  using run tr_take_dirty_down[OF ok q, of r] unfolding up_walk_asset_def Let_def
  by (auto split: if_splits sum.splits intro: tr_ok_record[OF ok] tr_ok_visit[OF ok])

lemma tr_up_walk:
  assumes ok: "up_traversal_ok Q visit"
  shows "up_walk fuel env visit r (vs, dd, st) = Inr (vs', dd', st') \<Longrightarrow> Q st \<Longrightarrow> Q st'"
proof (induction fuel arbitrary: r vs dd st vs' dd' st')
  case 0
  then show ?case by simp
next
  case (Suc fuel)
  have C: "Q s1"
    if "up_for_children (up_walk fuel env visit) r ty outgoing (v0, d0, s0) = Inr (v1, d1, s1)"
      and "Q s0"
    for ty outgoing v0 d0 s0 v1 d1 s1
    using that by (rule tr_up_for_children[OF ok, rotated]) (use Suc.IH in blast)
  show ?case
    using Suc.prems
    by (auto split: sum.splits option.splits if_splits)
      ((frule (1) C, (frule (1) tr_up_walk_asset[OF ok])?, assumption)+)
qed

lemma tr_up_step_asset:
  assumes ok: "up_traversal_ok Q visit"
    and run: "up_step_asset env visit r n queue st = Inr (queue', st')" and q: "Q st"
  shows "Q st'"
proof -
  have "Q (take_dirty_up r outgoing (take_dirty_down r incoming st))" for incoming outgoing
    by (intro tr_take_dirty_up[OF ok] tr_take_dirty_down[OF ok] q)
  then show ?thesis
    using run unfolding up_step_asset_def Let_def
    by (auto split: if_splits sum.splits intro: tr_ok_record[OF ok] tr_ok_visit[OF ok])
qed

lemma tr_up_step:
  assumes ok: "up_traversal_ok Q visit"
    and run: "up_step env visit queue st = Inr (queue', st')" and q: "Q st"
  shows "Q st'"
  using run q unfolding up_step_def
  by (auto split: sum.splits option.splits if_splits list.splits
      intro: tr_up_step_asset[OF ok])

lemma tr_up_loop:
  assumes ok: "up_traversal_ok Q visit"
  shows "up_loop fuel env visit queue st = Inr st' \<Longrightarrow> Q st \<Longrightarrow> Q st'"
proof (induction fuel arbitrary: queue st)
  case 0
  then show ?case by (cases queue) auto
next
  case (Suc fuel)
  show ?case
  proof (cases queue)
    case Nil
    with Suc.prems show ?thesis by simp
  next
    case (Cons q qs)
    with Suc.prems obtain queue' st1 where
      1: "up_step env visit queue st = Inr (queue', st1)"
      and 2: "up_loop fuel env visit queue' st1 = Inr st'"
      by (auto split: sum.splits)
    from Suc.IH[OF 2 tr_up_step[OF ok 1 Suc.prems(2)]] show ?thesis .
  qed
qed

lemma tr_propagateSymbolsUp:
  assumes ok: "up_traversal_ok Q visit"
    and run: "propagateSymbolsUp fuel env changed cd prev visit st = Inr st'"
    and q: "Q (st\<lparr>errors := prune_errors (assetGraph st) prev\<rparr>)"
  shows "Q st'"
proof -
  let ?st0 = "st\<lparr>errors := prune_errors (assetGraph st) prev\<rparr>"
  from run consider
    (queue) q0 where "up_loop fuel env visit q0 ?st0 = Inr st'"
  | (full) rt vs dd st1 where "up_walk fuel env visit rt ({rt}, [], ?st0) = Inr (vs, dd, st1)"
      "up_loop fuel env visit dd st1 = Inr st'"
    unfolding propagateSymbolsUp_def Let_def
    by (auto split: sum.splits if_splits option.splits)
  then show ?thesis
  proof cases
    case queue
    then show ?thesis using q by (rule tr_up_loop[OF ok])
  next
    case full
    from tr_up_walk[OF ok full(1) q] full(2) show ?thesis
      by (rule tr_up_loop[OF ok, rotated])
  qed
qed


lemma frame_of_rests:
  "frame_of (down_rest n) = frame_of n" "frame_of (up_rest n) = frame_of n"
  "frame_of (flag_rest n) = frame_of n"
  by (simp_all add: frame_of_def down_rest_def up_rest_def flag_rest_def)

lemma frame_of_cong:
  "down_rest (f n) = down_rest n \<Longrightarrow> frame_of (f n) = frame_of n"
  "up_rest (f n) = up_rest n \<Longrightarrow> frame_of (f n) = frame_of n"
  "flag_rest (f n) = flag_rest n \<Longrightarrow> frame_of (f n) = frame_of n"
  by (metis frame_of_rests)+

lemma map_frame_map_entry:
  "(\<And>n. frame_of (f n) = frame_of n) \<Longrightarrow>
     map (\<lambda>(r, n). (r, frame_of n)) (AList.map_entry k f xs) = map (\<lambda>(r, n). (r, frame_of n)) xs"
  by (induction xs) auto

lemma structure_modify:
  "(\<And>n. frame_of (f n) = frame_of n) \<Longrightarrow> structure_of (modify_node r f g) = structure_of g"
  by (simp add: structure_of_def modify_node_def map_frame_map_entry)

lemma structure_views:
  "down_writes_ok (\<lambda>st. structure_of (assetGraph st))"
  "up_writes_ok (\<lambda>st. structure_of (assetGraph st))"
  unfolding down_writes_ok_def up_writes_ok_def modify_def
  by (auto intro!: structure_modify simp: frame_of_cong)

lemma structure_traversal:
  "up_traversal_ok (\<lambda>st. structure_of (assetGraph st) = S) (visit_up env)"
  unfolding up_traversal_ok_def
proof (intro conjI allI impI)
  fix r f and st :: pstate
  assume "\<forall>n. flag_rest (f n) = flag_rest n" "structure_of (assetGraph st) = S"
  then show "structure_of (assetGraph (modify r f st)) = S"
    by (simp add: modify_def structure_modify frame_of_cong)
next
  fix r e and st :: pstate
  assume "structure_of (assetGraph st) = S"
  then show "structure_of (assetGraph (record_errors r e st)) = S"
    by (simp add: record_errors_def Let_def modify_def structure_modify frame_of_def)
next
  fix a i out e and st st' :: pstate
  assume "visit_up env a i out st = Inr (e, st')" "structure_of (assetGraph st) = S"
  then show "structure_of (assetGraph st') = S"
    using up_visit_up[OF structure_views(2)] by fastforce
qed

lemma structure_sort: "structure_of (assetGraph (sort_changedDeps st)) = structure_of (assetGraph st)"
  unfolding sort_changedDeps_def
  by (rule fold_pres) (simp add: modify_def structure_modify frame_of_def)

lemma propagateSymbols_structure:
  assumes "propagateSymbols fuel env g changedAssetsPropagation assetGroupsWithRemovedParents
             previousErrors = Inr st"
  shows "structure_of (assetGraph st) = structure_of g"
proof -
  let ?init = "\<lparr>assetGraph = g, changedDeps = [], changedDepsUsedSymbolsUpDirtyDown = [],
                 errors = [], upVisits = []\<rparr>"
  from assms obtain ids st1 st2 where
    1: "propagateSymbolsDown fuel env ids assetGroupsWithRemovedParents (visit_down env) ?init
          = Inr st1"
    and 2: "propagateSymbolsUp fuel env ids (changedDepsUsedSymbolsUpDirtyDown st1)
              previousErrors (visit_up env) st1 = Inr st2"
    and 3: "st = sort_changedDeps st2"
    unfolding propagateSymbols_def by (auto split: sum.splits)
  have "structure_of (assetGraph st1) = structure_of (assetGraph ?init)"
    using down_propagateSymbolsDown[OF structure_views(1) _ 1]
      down_visit_down[OF structure_views(1)] by blast
  then have s1: "structure_of (assetGraph st1) = structure_of g" by simp
  have "structure_of (assetGraph st2) = structure_of g"
    using structure_traversal 2 by (rule tr_propagateSymbolsUp) (simp add: s1)
  with 3 show ?thesis by (simp add: structure_sort)
qed


subsection \<open>The errors that a propagation returns\<close>

lemma propagateSymbols_phases:
  assumes "propagateSymbols fuel env g changedAssetsPropagation assetGroupsWithRemovedParents
             previousErrors = Inr st"
  obtains ids st1 st2 where
    "propagateSymbolsDown fuel env ids assetGroupsWithRemovedParents (visit_down env)
       \<lparr>assetGraph = g, changedDeps = [], changedDepsUsedSymbolsUpDirtyDown = [],
        errors = [], upVisits = []\<rparr> = Inr st1"
    "propagateSymbolsUp fuel env ids (changedDepsUsedSymbolsUpDirtyDown st1)
       previousErrors (visit_up env) st1 = Inr st2"
    "st = sort_changedDeps st2"
  using assms unfolding propagateSymbols_def by (auto split: sum.splits)

lemma down_phase_view:
  assumes "down_writes_ok P"
    and "propagateSymbolsDown fuel env ids groups (visit_down env) st = Inr st1"
  shows "P st1 = P st"
  using down_propagateSymbolsDown[OF assms(1) _ assms(2)] down_visit_down[OF assms(1)]
  by blast










subsection \<open>The order of \<open>usedSymbolsUp\<close>\<close>

lemma getNode_modify_node:
  "getNode (modify_node r f g) r' = (if r' = r then map_option f (getNode g r) else getNode g r')"
  by (auto simp add: getNode_def modify_node_def map_of_map_entry split: option.splits)

lemma deref_modify_node:
  "deref (modify_node r f g) r' =
     (if r' = r then (case getNode g r of None \<Rightarrow> null_node | Some n \<Rightarrow> f n) else deref g r')"
  by (simp add: deref_def getNode_modify_node split: option.splits)

lemma sorted_fold_sort:
  assumes "\<forall>d\<in>A. sorted (map fst (usedSymbolsUp (deref (assetGraph st) d)))"
  shows "\<forall>d\<in>A \<union> set ds. sorted (map fst (usedSymbolsUp (deref (assetGraph
           (fold (\<lambda>dep. modify dep (\<lambda>n. n\<lparr>usedSymbolsUp := sort_key fst (usedSymbolsUp n)\<rparr>))
              ds st)) d)))"
  using assms
proof (induction ds arbitrary: A st)
  case Nil
  then show ?case by simp
next
  case (Cons x xs)
  let ?st = "modify x (\<lambda>n. n\<lparr>usedSymbolsUp := sort_key fst (usedSymbolsUp n)\<rparr>) st"
  have "\<forall>d\<in>insert x A. sorted (map fst (usedSymbolsUp (deref (assetGraph ?st) d)))"
    using Cons.prems
    by (auto simp add: modify_def deref_modify_node null_node_def split: option.splits)
  from Cons.IH[OF this] show ?case by simp
qed

lemma changedDeps_sort: "changedDeps (sort_changedDeps st) = changedDeps st"
  unfolding sort_changedDeps_def by (rule fold_pres) (simp add: modify_def)

text \<open>
  C4. The final loop of \<open>propagateSymbols\<close> is there to give \<open>usedSymbolsUp\<close> "a
  consistent order across builds", but it sorts the members of \<open>changedDeps\<close> only, and a
  dependency enters \<open>changedDeps\<close> only when \<open>equalMap\<close> finds its new map different from
  the old one; \<open>equalMap\<close> does not look at the order. The first build of
  \<open>two_exports_graph\<close> leaves \<open>d1\<close> with the keys 5, 6. When the asset \<open>a\<close> is then
  rebuilt with nothing else changed, the visitor fills the map of \<open>d1\<close> anew in the order
  6, 5 of \<open>usedSymbolsDown\<close>, finds it equal to the old one and leaves \<open>d1\<close> out of
  \<open>changedDeps\<close>: the second build returns with the keys of \<open>d1\<close> in the order 6, 5.
\<close>

theorem rebuild_leaves_usedSymbolsUp_unsorted:
  "\<not> isl two_exports_run
   \<and> map fst (usedSymbolsUp (deref (assetGraph (projr two_exports_run)) 1)) = [5, 6]
   \<and> (case propagateSymbols 50 two_exports_env
              (mark_changed 2 (assetGraph (projr two_exports_run))) [''a''] [] None of
         Inl e \<Rightarrow> False
       | Inr st \<Rightarrow>
           node_type (deref (assetGraph st) 1) = dependency
           \<and> map fst (usedSymbolsUp (deref (assetGraph st) 1)) = [6, 5]
           \<and> \<not> sorted (map fst (usedSymbolsUp (deref (assetGraph st) 1)))
           \<and> changedDeps st = [])"
  by code_simp

text \<open>
  A dependency that resolves to nothing is not sorted either, already in a first build.
  The dependency \<open>d2\<close> of \<open>external_graph\<close> is one: the visitor of the up traversal,
  called on \<open>a\<close>, takes every symbol requested from \<open>d2\<close> to exist and copies
  \<open>usedSymbolsDown\<close> = 6, 5 into \<open>usedSymbolsUp\<close> in that order, and only the incoming
  dependencies of an asset are ever put into \<open>changedDeps\<close>.
\<close>

theorem excluded_dependency_not_sorted:
  "(case propagateSymbols 50 external_env external_graph [''a''] [] None of
      Inl e \<Rightarrow> False
    | Inr st \<Rightarrow>
        node_type (deref (assetGraph st) 3) = dependency
        \<and> usedSymbolsUp (deref (assetGraph st) 3) = [(6, None), (5, None)]
        \<and> \<not> sorted (map fst (usedSymbolsUp (deref (assetGraph st) 3))))"
  by code_simp

text \<open>
  What the final loop does establish: when \<open>propagateSymbols\<close> returns, every member of
  \<open>changedDeps\<close> has the keys of its \<open>usedSymbolsUp\<close> in ascending order.
\<close>

theorem changedDeps_sorted:
  assumes "propagateSymbols fuel env g changedAssetsPropagation assetGroupsWithRemovedParents
             previousErrors = Inr st"
    and "d \<in> set (changedDeps st)"
  shows "sorted (map fst (usedSymbolsUp (deref (assetGraph st) d)))"
proof -
  from assms(1) obtain st2 where 3: "st = sort_changedDeps st2"
    by (rule propagateSymbols_phases)
  from assms(2) have "d \<in> {} \<union> set (changedDeps st2)" by (simp add: 3 changedDeps_sort)
  with sorted_fold_sort[of "{}" st2 "changedDeps st2"] show ?thesis
    unfolding 3 sort_changedDeps_def by blast
qed

theorem changedDeps_sorted_witness:
  "\<not> isl two_exports_run
   \<and> changedDeps (projr two_exports_run) = [1]
   \<and> usedSymbolsDown (deref (assetGraph (projr two_exports_run)) 1) = [6, 5]
   \<and> sorted (map fst (usedSymbolsUp (deref (assetGraph (projr two_exports_run)) 1)))"
proof -
  have a: "\<not> isl two_exports_run" by code_simp
  then have b: "propagateSymbols 50 two_exports_env two_exports_graph [''a''] [] None
      = Inr (projr two_exports_run)"
    by (simp add: two_exports_run_def)
  have c: "changedDeps (projr two_exports_run) = [1]" by code_simp
  then have m: "1 \<in> set (changedDeps (projr two_exports_run))" by simp
  have d: "usedSymbolsDown (deref (assetGraph (projr two_exports_run)) 1) = [6, 5]"
    by code_simp
  from changedDeps_sorted [OF b m] a c d show ?thesis by blast
qed

subsection \<open>\<open>usedSymbolsDown\<close> and the keys of \<open>usedSymbolsUp\<close>\<close>

text \<open>
  C3. The visitor of the up traversal says of an outgoing dependency that
  "usedSymbolsDown is a superset of usedSymbolsUp", but for a dependency that resolves to
  nothing it only adds the requested symbols to \<open>usedSymbolsUp\<close> and never removes one. In
  \<open>external_graph\<close> the asset \<open>a\<close> first imports the symbol 5 through the unresolved
  dependency \<open>d2\<close>: the build leaves \<open>d2\<close> with \<open>usedSymbolsDown\<close> = 5 and the key 5 in
  \<open>usedSymbolsUp\<close>. Then \<open>a\<close> changes and imports the symbol 6 instead: the next build
  leaves \<open>d2\<close> with \<open>usedSymbolsDown\<close> = 6 and the keys 5, 6 in \<open>usedSymbolsUp\<close>.
\<close>

theorem excluded_dependency_keeps_stale_symbol:
  "(case propagateSymbols 50 (one_import_env 5) external_graph [''a''] [] None of
      Inl e \<Rightarrow> False
    | Inr st1 \<Rightarrow>
        usedSymbolsDown (deref (assetGraph st1) 3) = [5]
        \<and> usedSymbolsUp (deref (assetGraph st1) 3) = [(5, None)]
        \<and> (case propagateSymbols 50 (one_import_env 6) (mark_changed 2 (assetGraph st1))
                   [''a''] [] None of
              Inl e \<Rightarrow> False
            | Inr st2 \<Rightarrow>
                node_type (deref (assetGraph st2) 3) = dependency
                \<and> usedSymbolsDown (deref (assetGraph st2) 3) = [6]
                \<and> usedSymbolsUp (deref (assetGraph st2) 3) = [(5, None), (6, None)]
                \<and> \<not> set (map fst (usedSymbolsUp (deref (assetGraph st2) 3)))
                       \<subseteq> set (usedSymbolsDown (deref (assetGraph st2) 3))))"
  by code_simp

subsection \<open>A second propagation\<close>

text \<open>
  C2. Two calls of \<open>propagateSymbols\<close> with the same arguments, the second on the graph
  that the first has left. On scenario 1 of the spec no node produces an error, and yet
  after the second call the dependency \<open>d1\<close> still has \<open>usedSymbolsDownDirty\<close> and
  \<open>usedSymbolsUpDirtyUp\<close> set: the down traversal starts at the changed assets and never
  dequeues \<open>d1\<close>, and \<open>usedSymbolsUpDirtyUp\<close> is only cleared by an asset above the
  dependency, of which the entry dependency has none. The flags of a new node are not
  what keeps them set: when \<open>d1\<close> starts with no dirty flag (\<open>settled_entry_graph\<close>), the
  visitor of the up traversal sets \<open>usedSymbolsUpDirtyUp\<close> on it in the first call, because
  its \<open>usedSymbolsUp\<close> changes, and the flag is still set after the second. On scenario
  2, with \<open>a\<close> as the only changed asset, the first call returns errors for the assets
  \<open>b\<close> and \<open>a\<close> (nodes 4 and 2), and the second call, which does not reach \<open>b\<close>, returns
  the error of \<open>a\<close> only.
\<close>

theorem second_propagation_differs:
  "(case propagateSymbols 50 reexport_env reexport_graph [''a'', ''b''] [] None of
      Inl e \<Rightarrow> False
    | Inr st1 \<Rightarrow>
        (case propagateSymbols 50 reexport_env (assetGraph st1) [''a'', ''b''] [] None of
           Inl e \<Rightarrow> False
         | Inr st2 \<Rightarrow>
             errors st1 = [] \<and> errors st2 = []
             \<and> node_type (deref (assetGraph st2) 1) = dependency
             \<and> usedSymbolsDownDirty (deref (assetGraph st2) 1)
             \<and> usedSymbolsUpDirtyUp (deref (assetGraph st2) 1)))
   \<and> (case propagateSymbols 50 reexport_env settled_entry_graph [''a'', ''b''] [] None of
         Inl e \<Rightarrow> False
       | Inr st1 \<Rightarrow>
           (case propagateSymbols 50 reexport_env (assetGraph st1) [''a'', ''b''] [] None of
              Inl e \<Rightarrow> False
            | Inr st2 \<Rightarrow>
                errors st1 = [] \<and> errors st2 = []
                \<and> \<not> usedSymbolsUpDirtyUp (deref settled_entry_graph 1)
                \<and> usedSymbolsUpDirtyUp (deref (assetGraph st1) 1)
                \<and> usedSymbolsUpDirtyUp (deref (assetGraph st2) 1)))
   \<and> (case propagateSymbols 50 missing_env reexport_graph [''a''] [] None of
         Inl e \<Rightarrow> False
       | Inr st1 \<Rightarrow>
           (case propagateSymbols 50 missing_env (assetGraph st1) [''a''] [] None of
              Inl e \<Rightarrow> False
            | Inr st2 \<Rightarrow>
                map fst (errors st1) = [4, 2] \<and> map fst (errors st2) = [2]
                \<and> errors st2 \<noteq> errors st1))"
  by code_simp

subsection \<open>The frame of a propagation, by node type\<close>

lemma fold_pres_mem:
  "(\<And>x s. x \<in> set xs \<Longrightarrow> P (f x s) = P s) \<Longrightarrow> P (fold f xs s) = P s"
  by (induction xs arbitrary: s) auto

lemma ty_modify:
  assumes "typed_writes_ok g P" and "writable g r" and "\<And>n. frame_of (f n) = frame_of n"
  shows "P (modify r f st) = P st"
  using assms unfolding typed_writes_ok_def by blast

lemma ty_modify_group:
  assumes "typed_writes_ok g P" and "node_type (deref g r) = asset_group"
    and "\<And>n. group_rest (f n) = group_rest n"
  shows "P (modify r f st) = P st"
  using assms unfolding typed_writes_ok_def by blast

lemma ty_changedDeps:
  assumes "typed_writes_ok g P" and "writable g d"
  shows "P (st\<lparr>changedDeps := set_add d (changedDeps st)\<rparr>) = P st"
  using assms unfolding typed_writes_ok_def by blast

lemma ty_changed:
  assumes "typed_writes_ok g P"
  shows "P (st\<lparr>changedDepsUsedSymbolsUpDirtyDown := c\<rparr>) = P st"
  using assms unfolding typed_writes_ok_def by blast

lemma ty_errors:
  assumes "typed_writes_ok g P"
  shows "P (st\<lparr>errors := c\<rparr>) = P st"
  using assms unfolding typed_writes_ok_def by blast

lemma ty_upVisits:
  assumes "typed_writes_ok g P"
  shows "P (st\<lparr>upVisits := c\<rparr>) = P st"
  using assms unfolding typed_writes_ok_def by blast

lemma ty_add_usedSymbol:
  "typed_writes_ok g P \<Longrightarrow> writable g a \<Longrightarrow> P (add_usedSymbol a s st) = P st"
  by (simp add: add_usedSymbol_def ty_modify frame_of_def)

lemma ty_delete_usedSymbol:
  "typed_writes_ok g P \<Longrightarrow> writable g a \<Longrightarrow> P (delete_usedSymbol a s st) = P st"
  by (simp add: delete_usedSymbol_def ty_modify frame_of_def)

lemma ty_request_symbol:
  "typed_writes_ok g P \<Longrightarrow> writable g a \<Longrightarrow>
     request_symbol env a syms ns x (l, st) = (l', st') \<Longrightarrow> P st' = P st"
  by (auto simp: request_symbol_def ty_add_usedSymbol split: option.splits if_splits)

lemma ty_request_from_dep:
  assumes ok: "typed_writes_ok g P" and a: "writable g a"
    and run: "request_from_dep env a syms ns d (l, st) = (l', st')"
  shows "P st' = P st"
proof -
  have F: "P s1 = P s0"
    if "fold (request_symbol env a syms ns) xs (l0, s0) = (l1, s1)" for xs l0 s0 l1 s1
    using that by (rule fold_pres_pair) (erule ty_request_symbol[OF ok a])
  show ?thesis
    using run F unfolding request_from_dep_def Let_def
    by (auto split: if_splits)
qed

lemma ty_determine_requested:
  assumes ok: "typed_writes_ok g P" and a: "writable g a"
    and run: "determine_requested env a syms ns incoming st = Inr (l, st')"
  shows "P st' = P st"
proof -
  let ?st0 = "modify a (\<lambda>n. n\<lparr>usedSymbols := []\<rparr>) st"
  let ?step1 = "(if incoming = []
            then (\<lparr>isEntry = False, addAll = False,
                   namespaceReexportedSymbols = set_add (starSymbol env) []\<rparr>,
                  add_usedSymbol a (starSymbol env) ?st0)
            else fold (request_from_dep env a syms ns) incoming
                   (\<lparr>isEntry = False, addAll = False, namespaceReexportedSymbols = []\<rparr>, ?st0))"
  have 0: "P ?st0 = P st"
    by (simp add: ty_modify[OF ok a] frame_of_def)
  have 2: "P (fold (\<lambda>sy. add_usedSymbol a (exported sy)) xs s) = P s" for xs s
    by (rule fold_pres) (rule ty_add_usedSymbol[OF ok a])
  have F: "P s1 = P s0"
    if "fold (request_from_dep env a syms ns) xs (l0, s0) = (l1, s1)" for xs l0 s0 l1 s1
    using that by (rule fold_pres_pair) (erule ty_request_from_dep[OF ok a])
  obtain l1 st1 where 1: "?step1 = (l1, st1)"
    by (cases ?step1)
  have p1: "P st1 = P ?st0"
  proof (cases "incoming = []")
    case True
    with 1 show ?thesis by (auto simp: ty_add_usedSymbol[OF ok a])
  next
    case False
    with 1 show ?thesis by (auto dest: F)
  qed
  from run have "(if addAll l1
          then (case syms of
                  None \<Rightarrow> Inl TypeError
                | Some ss \<Rightarrow>
                    Inr (l1, fold (\<lambda>sy. add_usedSymbol a (exported sy)) ss st1))
          else Inr (l1, st1)) = Inr (l, st')"
    unfolding determine_requested_def 1 by simp
  then have "P st' = P st1"
    using 2 by (auto split: if_splits option.splits)
  with p1 0 show ?thesis by simp
qed

lemma ty_distribute_symbol:
  assumes ok: "typed_writes_ok g P" and a: "writable g a"
    and run: "distribute_symbol env a inv' sy (d, st) = (d', st')"
  shows "P st' = P st"
proof -
  have 2: "P (fold (delete_usedSymbol a) xs s) = P s" for xs s
    by (rule fold_pres) (rule ty_delete_usedSymbol[OF ok a])
  show ?thesis
    using run unfolding distribute_symbol_def Let_def
    by (auto simp: 2 split: if_splits option.splits)
qed

lemma ty_mark_outgoing:
  assumes ok: "typed_writes_ok g P" and d: "writable g dep"
  shows "P (mark_outgoing dep old new st) = P st"
  unfolding mark_outgoing_def Let_def
  by (simp add: ty_modify[OF ok d] ty_changed[OF ok] frame_of_def)

lemma ty_distribute_to_dep:
  assumes ok: "typed_writes_ok g P" and a: "writable g a" and d: "writable g dep"
  shows "P (distribute_to_dep env a asset' inv' l dep st) = P st"
proof -
  have 0: "P (modify dep (\<lambda>n. n\<lparr>usedSymbolsDown := h\<rparr>) s) = P s" for h s
    by (simp add: ty_modify[OF ok d] frame_of_def)
  have F: "P s1 = P s0"
    if "fold (distribute_symbol env a inv') xs (l0, s0) = (l1, s1)" for xs l0 s0 l1 s1
    using that by (rule fold_pres_pair) (erule ty_distribute_symbol[OF ok a])
  show ?thesis
    unfolding distribute_to_dep_def Let_def
    using F
    by (auto simp: ty_mark_outgoing[OF ok d] 0 split: option.splits prod.splits)
qed

lemma ty_visit_down:
  assumes ok: "typed_writes_ok g P" and a: "writable g a"
    and out: "\<forall>d \<in> set outgoing. writable g d"
    and run: "visit_down env a incoming outgoing st = Inr st'"
  shows "P st' = P st"
proof -
  have 2: "P (fold (distribute_to_dep env a asset' inv' l) outgoing s) = P s" for asset' inv' l s
    by (rule fold_pres_mem) (use out in \<open>simp add: ty_distribute_to_dep[OF ok a]\<close>)
  show ?thesis
    using run unfolding visit_down_def Let_def
    by (auto simp: 2 split: sum.splits dest: ty_determine_requested[OF ok a])
qed

lemma fold_err_inv_pair:
  assumes "fold_err f xs (l0, s0) = Inr (l1, s1)"
    and "\<And>x l s l' s'. f x (l, s) = Inr (l', s') \<Longrightarrow> Q s \<Longrightarrow> Q s'"
    and "Q s0"
  shows "Q s1"
  using assms(1,3)
proof (induction xs arbitrary: l0 s0)
  case Nil
  then show ?case by simp
next
  case (Cons x xs)
  from Cons.prems(1) obtain l s where 1: "f x (l0, s0) = Inr (l, s)"
    and 2: "fold_err f xs (l, s) = Inr (l1, s1)"
    by (auto split: sum.splits)
  from assms(2)[OF 1 Cons.prems(2)] have "Q s" .
  with Cons.IH[OF 2] show ?case by simp
qed

lemma deref_getNode: "getNode g r = Some n \<Longrightarrow> deref g r = n"
  by (simp add: deref_def)

lemma deref_none: "getNode g r = None \<Longrightarrow> deref g r = null_node"
  by (simp add: deref_def)

lemma field_modify:
  assumes "\<And>n. F (f n) = F n"
  shows "F (deref (assetGraph (modify r f st)) r') = F (deref (assetGraph st) r')"
  using assms
  by (auto simp add: modify_def deref_modify_node deref_getNode deref_none split: option.splits)

lemma frame_of_type:
  assumes "frame_of a = frame_of b"
  shows "node_type a = node_type b"
  using arg_cong[OF assms, of node_type] by (simp add: frame_of_def)

lemma down_rest_type:
  assumes "down_rest a = down_rest b"
  shows "node_type a = node_type b"
  using arg_cong[OF assms, of node_type] by (simp add: down_rest_def)

lemma up_rest_type:
  assumes "up_rest a = up_rest b"
  shows "node_type a = node_type b"
  using arg_cong[OF assms, of node_type] by (simp add: up_rest_def)

lemma flag_rest_type:
  assumes "flag_rest a = flag_rest b"
  shows "node_type a = node_type b"
  using arg_cong[OF assms, of node_type] by (simp add: flag_rest_def)

lemma types_modify:
  assumes "\<And>n. node_type (f n) = node_type n"
  shows "types_as g (modify r f st) = types_as g st"
proof -
  have "node_type (deref (assetGraph (modify r f st)) r') = node_type (deref (assetGraph st) r')"
    for r'
    using assms by (rule field_modify[where F = node_type])
  then show ?thesis by (simp only: types_as_def)
qed

lemma types_down_view: "down_writes_ok (types_as g)"
  unfolding down_writes_ok_def
proof (intro conjI allI impI)
  fix r f and st :: pstate
  assume a: "\<forall>n. down_rest (f n) = down_rest n"
  have "node_type (f n) = node_type n" for n
    by (rule down_rest_type) (simp add: a)
  then show "types_as g (modify r f st) = types_as g st"
    by (rule types_modify)
next
  fix h and st :: pstate
  show "types_as g (st\<lparr>changedDepsUsedSymbolsUpDirtyDown := h\<rparr>) = types_as g st"
    by (simp add: types_as_def)
qed

lemma types_up_view: "up_writes_ok (types_as g)"
  unfolding up_writes_ok_def
proof (intro conjI allI impI)
  fix r f and st :: pstate
  assume a: "\<forall>n. up_rest (f n) = up_rest n"
  have "node_type (f n) = node_type n" for n
    by (rule up_rest_type) (simp add: a)
  then show "types_as g (modify r f st) = types_as g st"
    by (rule types_modify)
next
  fix h and st :: pstate
  show "types_as g (st\<lparr>changedDeps := h\<rparr>) = types_as g st"
    by (simp add: types_as_def)
qed

lemma types_traversal: "up_traversal_ok (types_as g) (visit_up env)"
  unfolding up_traversal_ok_def
proof (intro conjI allI impI)
  fix r f and st :: pstate
  assume a: "\<forall>n. flag_rest (f n) = flag_rest n" and t: "types_as g st"
  have "node_type (f n) = node_type n" for n
    by (rule flag_rest_type) (simp add: a)
  then have "types_as g (modify r f st) = types_as g st"
    by (rule types_modify)
  with t show "types_as g (modify r f st)" by simp
next
  fix r e and st :: pstate
  assume t: "types_as g st"
  have m: "types_as g (modify r (\<lambda>n. n\<lparr>usedSymbolsUpDirty := b\<rparr>) s) = types_as g s"
    for b and s :: pstate
    by (rule types_modify) simp
  have e: "types_as g (s\<lparr>errors := h\<rparr>) = types_as g s"
    "types_as g (s\<lparr>upVisits := h'\<rparr>) = types_as g s" for h h' and s :: pstate
    by (simp_all add: types_as_def)
  from t show "types_as g (record_errors r e st)"
    by (simp add: record_errors_def Let_def m e)
next
  fix a i out e and st st' :: pstate
  assume run: "visit_up env a i out st = Inr (e, st')" and t: "types_as g st"
  from up_visit_up[OF types_up_view run] have "types_as g st' = types_as g st" .
  with t show "types_as g st'" by simp
qed

lemma types_writable:
  "types_as g st \<Longrightarrow> getNode (assetGraph st) r = Some n \<Longrightarrow>
     node_type n = asset \<or> node_type n = dependency \<Longrightarrow> writable g r"
  by (auto simp add: types_as_def writable_def dest!: deref_getNode)

lemma types_group:
  "types_as g st \<Longrightarrow> getNode (assetGraph st) r = Some n \<Longrightarrow>
     node_type n = asset_group \<Longrightarrow> node_type (deref g r) = asset_group"
  by (auto simp add: types_as_def dest!: deref_getNode)

lemma map_err_set:
  "map_err f xs = Inr ys \<Longrightarrow> y \<in> set ys \<Longrightarrow> \<exists>x. f x = Inr y"
proof (induction xs arbitrary: ys)
  case Nil
  then show ?case by simp
next
  case (Cons x xs)
  from Cons.prems(1) obtain z zs where 1: "f x = Inr z" and 2: "map_err f xs = Inr zs"
    and 3: "ys = z # zs"
    by (auto split: sum.splits)
  show ?case
  proof (cases "y = z")
    case True
    with 1 show ?thesis by blast
  next
    case False
    with Cons.prems(2) 3 have "y \<in> set zs" by simp
    from Cons.IH[OF 2 this] show ?thesis .
  qed
qed

lemma incoming_typed:
  assumes "incoming_dependencies env (assetGraph st) n = Inr incoming" and "types_as g st"
    and "d \<in> set incoming"
  shows "writable g d"
proof -
  from map_err_set[OF assms(1)[unfolded incoming_dependencies_def] assms(3)]
  obtain x where "(case map_of (contentKeyToNodeId (assetGraph st)) x of
                     None \<Rightarrow> Inl AssertionFailed
                   | Some r \<Rightarrow>
                       (case getNode (assetGraph st) r of
                          None \<Rightarrow> Inl AssertionFailed
                        | Some dep \<Rightarrow>
                            if node_type dep = dependency then Inr r else Inl AssertionFailed))
       = Inr d"
    by blast
  then obtain dn where "getNode (assetGraph st) d = Some dn" "node_type dn = dependency"
    by (simp split: option.splits if_splits)
  with assms(2) show ?thesis by (auto intro: types_writable)
qed

lemma outgoing_typed:
  assumes "outgoing_dependencies (assetGraph st) outgoing = Inr deps" and "types_as g st"
    and "d \<in> set deps"
  shows "writable g d"
proof -
  from map_err_set[OF assms(1)[unfolded outgoing_dependencies_def] assms(3)]
  obtain x where "(case getNode (assetGraph st) x of
                     None \<Rightarrow> Inl NullThrows
                   | Some depNode \<Rightarrow>
                       if node_type depNode = dependency then Inr x else Inl AssertionFailed)
       = Inr d"
    by blast
  then obtain dn where "getNode (assetGraph st) d = Some dn" "node_type dn = dependency"
    by (simp split: option.splits if_splits)
  with assms(2) show ?thesis by (auto intro: types_writable)
qed

lemma ty_down_child:
  assumes ok: "typed_writes_ok g P" and ty: "types_as g st"
    and run: "down_child dirty child (q, st) = Inr (q', st')"
  shows "P st' = P st"
proof -
  from run consider (same) "st' = st"
    | (mark) cn where "getNode (assetGraph st) child = Some cn"
        "node_type cn = asset \<or> node_type cn = asset_group"
        "st' = modify child (\<lambda>n. n\<lparr>usedSymbolsDownDirty := True\<rparr>) st"
    unfolding down_child_def
    by (auto split: option.splits if_splits)
  then show ?thesis
  proof cases
    case same
    then show ?thesis by simp
  next
    case mark
    show ?thesis
    proof (cases "node_type cn = asset")
      case True
      with ty mark(1) have "writable g child" by (auto intro: types_writable)
      then show ?thesis
        unfolding mark(3) by (simp add: ty_modify[OF ok] frame_of_def)
    next
      case False
      with mark(2) ty mark(1) have "node_type (deref g child) = asset_group"
        by (auto intro: types_group)
      then show ?thesis
        unfolding mark(3) by (simp add: ty_modify_group[OF ok] group_rest_def)
    qed
  qed
qed

lemma ty_down_node:
  assumes ok: "typed_writes_ok g P" and ty: "types_as g st"
    and n: "getNode (assetGraph st) r = Some n"
    and run: "down_node env (visit_down env) r outgoing n st = Inr (dirty, st')"
  shows "P st' = P st"
proof -
  have W: "P (modify r (\<lambda>n. n\<lparr>usedSymbolsDownDirty := False\<rparr>) s) = P s"
    if "node_type n = asset \<or> node_type n = dependency \<or> node_type n = asset_group" for s
  proof (cases "node_type n = asset_group")
    case True
    with ty n have "node_type (deref g r) = asset_group" by (auto intro: types_group)
    then show ?thesis by (simp add: ty_modify_group[OF ok] group_rest_def)
  next
    case False
    with that ty n have "writable g r" by (auto intro: types_writable)
    then show ?thesis by (simp add: ty_modify[OF ok] frame_of_def)
  qed
  from run consider (same) "st' = st"
    | (clear) "node_type n = dependency \<or> node_type n = asset_group"
        "st' = modify r (\<lambda>n. n\<lparr>usedSymbolsDownDirty := False\<rparr>) st"
    | (visit) i out s1 where "node_type n = asset"
        "incoming_dependencies env (assetGraph st) n = Inr i"
        "outgoing_dependencies (assetGraph st) outgoing = Inr out"
        "visit_down env r i out st = Inr s1"
        "st' = modify r (\<lambda>n. n\<lparr>usedSymbolsDownDirty := False\<rparr>) s1"
    unfolding down_node_def by (auto split: sum.splits if_splits)
  then show ?thesis
  proof cases
    case same
    then show ?thesis by simp
  next
    case clear
    then show ?thesis using W by auto
  next
    case visit
    from visit(1) ty n have a: "writable g r" by (auto intro: types_writable)
    have out: "\<forall>d \<in> set out. writable g d"
      using outgoing_typed[OF visit(3) ty] by blast
    from ty_visit_down[OF ok a out visit(4)] W visit(1,5) show ?thesis by simp
  qed
qed

lemma down_view_visit:
  "down_writes_ok P \<Longrightarrow> \<forall>a i out s s'. visit_down env a i out s = Inr s' \<longrightarrow> P s' = P s"
  using down_visit_down by blast

lemma ty_down_step:
  assumes ok: "typed_writes_ok g P" and ty: "types_as g st"
    and run: "down_step env (visit_down env) queue unreached st = Inr (queue', unreached', st')"
  shows "P st' = P st"
proof -
  from run obtain r outgoing n dirty st1 q1 q2 where
    0: "getNode (assetGraph st) r = Some n"
    and 1: "down_node env (visit_down env) r outgoing n st = Inr (dirty, st1)"
    and 2: "fold_err (down_child dirty) outgoing (q1, st1) = Inr (q2, st')"
    unfolding down_step_def
    by (auto split: sum.splits option.splits if_splits prod.splits)
  have p1: "P st1 = P st" using ok ty 0 1 by (rule ty_down_node)
  have t1: "types_as g st1"
    using down_down_node[OF types_down_view down_view_visit[OF types_down_view] 1] ty by simp
  have "types_as g st' \<and> P st' = P st1"
    using 2
  proof (rule fold_err_inv_pair)
    show "types_as g st1 \<and> P st1 = P st1" using t1 by simp
  next
    fix x l s l' s'
    assume c: "down_child dirty x (l, s) = Inr (l', s')" and i: "types_as g s \<and> P s = P st1"
    from ty_down_child[OF ok _ c] i have "P s' = P st1" by simp
    moreover from down_down_child[OF types_down_view c] i have "types_as g s'" by simp
    ultimately show "types_as g s' \<and> P s' = P st1" by simp
  qed
  with p1 show ?thesis by simp
qed

lemma ty_down_loop:
  assumes ok: "typed_writes_ok g P"
  shows "down_loop fuel env (visit_down env) queue unreached st = Inr st' \<Longrightarrow> types_as g st
           \<Longrightarrow> P st' = P st"
proof (induction fuel arbitrary: queue unreached st)
  case 0
  then show ?case by (cases queue) auto
next
  case (Suc fuel)
  show ?case
  proof (cases queue)
    case Nil
    with Suc.prems show ?thesis by simp
  next
    case (Cons q qs)
    with Suc.prems obtain queue' unreached' st1 where
      1: "down_step env (visit_down env) queue unreached st = Inr (queue', unreached', st1)"
      and 2: "down_loop fuel env (visit_down env) queue' unreached' st1 = Inr st'"
      by (auto split: sum.splits)
    have t1: "types_as g st1"
      using down_down_step[OF types_down_view down_view_visit[OF types_down_view] 1] Suc.prems(2)
      by simp
    from Suc.IH[OF 2 t1] ty_down_step[OF ok Suc.prems(2) 1] show ?thesis by simp
  qed
qed

lemma ty_propagateSymbolsDown:
  assumes ok: "typed_writes_ok g P" and ty: "types_as g st"
    and run: "propagateSymbolsDown fuel env changed groups (visit_down env) st = Inr st'"
  shows "P st' = P st"
proof -
  from run have "st' = st \<or> (\<exists>q u. down_loop fuel env (visit_down env) q u st = Inr st')"
    unfolding propagateSymbolsDown_def
    by (auto split: if_splits sum.splits)
  then show ?thesis
    using ty_down_loop[OF ok _ ty] by auto
qed

lemma fold_err_pres_pair_mem:
  assumes "fold_err f xs (l, s) = Inr (l', s')"
    and "\<And>x l s l' s'. x \<in> set xs \<Longrightarrow> f x (l, s) = Inr (l', s') \<Longrightarrow> P s' = P s"
  shows "P s' = P s"
  using assms
proof (induction xs arbitrary: l s)
  case Nil
  then show ?case by simp
next
  case (Cons x xs)
  from Cons.prems(1) obtain l1 s1 where 1: "f x (l, s) = Inr (l1, s1)"
    and 2: "fold_err f xs (l1, s1) = Inr (l', s')"
    by (auto split: sum.splits)
  have "P s' = P s1"
    using 2 by (rule Cons.IH) (rule Cons.prems(2), simp_all)
  moreover have "P s1 = P s"
    using _ 1 by (rule Cons.prems(2)) simp
  ultimately show ?case by simp
qed

lemma ty_record_reexport:
  "typed_writes_ok g P \<Longrightarrow> writable g a \<Longrightarrow>
     record_reexport env a s r (re, st) = (re', st') \<Longrightarrow> P st' = P st"
  by (auto simp: record_reexport_def ty_add_usedSymbol split: if_splits)

lemma ty_assume_excluded:
  "typed_writes_ok g P \<Longrightarrow> writable g dep \<Longrightarrow> P (assume_excluded dep st) = P st"
  unfolding assume_excluded_def
  by (rule fold_pres) (simp add: ty_modify frame_of_def)

lemma ty_namespace_reexports:
  assumes ok: "typed_writes_ok g P" and a: "writable g a"
    and run: "namespace_reexports env a dep (re, st) = (re', st')"
  shows "P st' = P st"
  using run unfolding namespace_reexports_def snd_conv
  by (rule fold_pres_pair) (auto split: if_splits dest: ty_record_reexport[OF ok a])

lemma ty_named_reexport:
  assumes ok: "typed_writes_ok g P" and a: "writable g a"
    and run: "named_reexport env a inv' syms down entry (re, st) = (re', st')"
  shows "P st' = P st"
proof -
  have F: "P s1 = P s0"
    if "fold (\<lambda>r. record_reexport env a r sResolved) xs (l0, s0) = (l1, s1)"
    for sResolved xs l0 s0 l1 s1
    using that by (rule fold_pres_pair) (erule ty_record_reexport[OF ok a])
  show ?thesis
    using run unfolding named_reexport_def
    by (auto split: prod.splits if_splits option.splits dest: F)
qed

lemma ty_named_reexports:
  assumes ok: "typed_writes_ok g P" and a: "writable g a"
    and run: "named_reexports env a inv' syms dep (re, st) = (re', st')"
  shows "P st' = P st"
  using run unfolding named_reexports_def snd_conv
  by (rule fold_pres_pair) (erule ty_named_reexport[OF ok a])

lemma ty_collect_reexports:
  assumes ok: "typed_writes_ok g P" and a: "writable g a" and d: "writable g dep"
    and run: "collect_reexports env a inv' dep (re, st) = Inr (re', st')"
  shows "P st' = P st"
proof (cases "dep_symbols (db_dependency env (node_value (deref (assetGraph st) dep)))")
  case None
  with run show ?thesis by (simp add: collect_reexports_def)
next
  case (Some syms)
  with run obtain st1 where 1: "st1 = st \<or> st1 = assume_excluded dep st"
    and 2: "named_reexports env a inv' syms dep
              (if star_reexport (starSymbol env) (Some syms)
               then namespace_reexports env a dep (re, st1) else (re, st1)) = (re', st')"
    unfolding collect_reexports_def
    by (auto split: sum.splits if_splits)
  obtain re2 st2 where 3: "(if star_reexport (starSymbol env) (Some syms)
               then namespace_reexports env a dep (re, st1) else (re, st1)) = (re2, st2)"
    by (cases "(if star_reexport (starSymbol env) (Some syms)
               then namespace_reexports env a dep (re, st1) else (re, st1))")
  have p1: "P st1 = P st"
    using 1 ty_assume_excluded[OF ok d] by auto
  have p2: "P st2 = P st1"
    using 3 ty_namespace_reexports[OF ok a] by (auto split: if_splits)
  have p3: "P st' = P st2"
    using 2 unfolding 3 by (rule ty_named_reexports[OF ok a])
  from p1 p2 p3 show ?thesis by simp
qed

lemma ty_resolve_symbol:
  assumes ok: "typed_writes_ok g P" and d: "writable g dep"
    and run: "resolve_symbol env a asset' re ns dep old s (errs, st) = Inr (errs', st')"
  shows "P st' = P st"
  using run unfolding resolve_symbol_def
  by (auto simp: ty_modify[OF ok d] frame_of_def split: if_splits sum.splits)

lemma ty_update_excluded:
  assumes ok: "typed_writes_ok g P" and d: "writable g dep"
    and run: "update_excluded env dep st = Inr st'"
  shows "P st' = P st"
proof -
  have 0: "P (modify dep (\<lambda>n. n\<lparr>excluded := b\<rparr>) s) = P s" for b s
    by (simp add: ty_modify[OF ok d] frame_of_def)
  from run have "st' = modify dep (\<lambda>n. n\<lparr>excluded := False\<rparr>) st
      \<or> st' = modify dep (\<lambda>n. n\<lparr>excluded := True\<rparr>) (modify dep (\<lambda>n. n\<lparr>excluded := False\<rparr>) st)"
    unfolding update_excluded_def Let_def
    by (auto split: if_splits sum.splits list.splits option.splits)
  with 0 show ?thesis by auto
qed

lemma ty_resolve_incoming:
  assumes ok: "typed_writes_ok g P" and d: "writable g dep"
    and run: "resolve_incoming env a asset' re dep (errs, st) = Inr (errs', st')"
  shows "P st' = P st"
proof -
  let ?st0 = "modify dep (\<lambda>n. n\<lparr>usedSymbolsUp := []\<rparr>) st"
  have 0: "P ?st0 = P st"
    by (simp add: ty_modify[OF ok d] frame_of_def)
  have F: "P s1 = P s0"
    if "fold_err (resolve_symbol env a asset' re ns dep old) xs (l0, s0) = Inr (l1, s1)"
    for ns old xs l0 s0 l1 s1
    using that by (rule fold_err_pres_pair) (erule ty_resolve_symbol[OF ok d])
  have M: "P ((modify dep (\<lambda>n. n\<lparr>usedSymbolsUpDirtyUp := True\<rparr>) s)
                \<lparr>changedDeps := set_add dep (changedDeps s)\<rparr>) = P s"
    for s
  proof -
    let ?s = "modify dep (\<lambda>n. n\<lparr>usedSymbolsUpDirtyUp := True\<rparr>) s"
    have "changedDeps ?s = changedDeps s" by (simp add: modify_def)
    with ty_changedDeps[OF ok d, of ?s] have "P (?s\<lparr>changedDeps := set_add dep (changedDeps s)\<rparr>) = P ?s"
      by simp
    then show ?thesis by (simp add: ty_modify[OF ok d] frame_of_def)
  qed
  show ?thesis
  proof (cases "dep_symbols (db_dependency env (node_value (deref (assetGraph st) dep)))")
    case None
    with run 0 show ?thesis by (auto simp: resolve_incoming_def Let_def)
  next
    case (Some syms)
    with run obtain errs1 st1 where
      1: "fold_err (resolve_symbol env a asset' re (star_reexport (starSymbol env) (Some syms))
              dep (usedSymbolsUp (deref (assetGraph st) dep)))
            (usedSymbolsDown (deref (assetGraph ?st0) dep)) (errs, ?st0) = Inr (errs1, st1)"
      and 3: "update_excluded env dep
                (if \<not> equalMap (usedSymbolsUp (deref (assetGraph st) dep))
                        (usedSymbolsUp (deref (assetGraph st1) dep))
                 then (modify dep (\<lambda>n. n\<lparr>usedSymbolsUpDirtyUp := True\<rparr>) st1)
                        \<lparr>changedDeps := set_add dep (changedDeps st1)\<rparr>
                 else st1) = Inr st'"
      unfolding resolve_incoming_def Let_def
      by (auto split: sum.splits)
    have "P st' = P st1"
      using ty_update_excluded[OF ok d 3] M by (simp split: if_splits)
    with F[OF 1] 0 show ?thesis by simp
  qed
qed

lemma ty_visit_up:
  assumes ok: "typed_writes_ok g P" and a: "writable g a"
    and inc: "\<forall>d \<in> set incoming. writable g d"
    and out: "\<forall>d \<in> set outgoing. writable g d"
    and run: "visit_up env a incoming outgoing st = Inr (e, st')"
  shows "P st' = P st"
proof -
  from run obtain re st1 where
    1: "fold_err (collect_reexports env a
          (map_option assetSymbolsInverse
             (symbols (db_asset env (node_value (deref (assetGraph st) a))))))
          outgoing ([], st) = Inr (re, st1)"
    and 2: "fold_err (resolve_incoming env a
          (db_asset env (node_value (deref (assetGraph st) a))) re) incoming ([], st1)
          = Inr (e, st')"
    unfolding visit_up_def Let_def by (auto split: sum.splits)
  have "P st1 = P st"
    using 1
  proof (rule fold_err_pres_pair_mem)
    fix x l s l' s'
    assume "x \<in> set outgoing"
    with out have "writable g x" by simp
    moreover assume "collect_reexports env a
          (map_option assetSymbolsInverse
             (symbols (db_asset env (node_value (deref (assetGraph st) a))))) x (l, s)
          = Inr (l', s')"
    ultimately show "P s' = P s" by (rule ty_collect_reexports[OF ok a])
  qed
  moreover have "P st' = P st1"
    using 2
  proof (rule fold_err_pres_pair_mem)
    fix x l s l' s'
    assume "x \<in> set incoming"
    with inc have "writable g x" by simp
    moreover assume "resolve_incoming env a
          (db_asset env (node_value (deref (assetGraph st) a))) re x (l, s) = Inr (l', s')"
    ultimately show "P s' = P s" by (rule ty_resolve_incoming[OF ok])
  qed
  ultimately show ?thesis by simp
qed

lemma ty_take_dirty_down:
  assumes ok: "typed_writes_ok g P" and r: "writable g r"
    and inc: "\<forall>d \<in> set incoming. writable g d"
  shows "P (take_dirty_down r incoming st) = P st"
  unfolding take_dirty_down_def
  by (rule fold_pres_mem) (use inc in \<open>simp add: ty_modify[OF ok] r frame_of_def\<close>)

lemma ty_take_dirty_up:
  assumes ok: "typed_writes_ok g P" and r: "writable g r"
    and out: "\<forall>d \<in> set outgoing. writable g d"
  shows "P (take_dirty_up r outgoing st) = P st"
  unfolding take_dirty_up_def
  by (rule fold_pres_mem) (use out in \<open>simp add: ty_modify[OF ok] r frame_of_def\<close>)

lemma ty_record_errors:
  assumes ok: "typed_writes_ok g P" and r: "writable g r"
  shows "P (record_errors r e st) = P st"
  unfolding record_errors_def Let_def
  by (simp add: ty_errors[OF ok] ty_upVisits[OF ok] ty_modify[OF ok r] frame_of_def)

lemma ty_up_walk_asset:
  assumes ok: "typed_writes_ok g P" and ty: "types_as g st" and r: "writable g r"
    and run: "up_walk_asset env (visit_up env) r n outgoing st = Inr st'"
  shows "P st' = P st"
proof -
  from run obtain incoming where
    1: "incoming_dependencies env (assetGraph st) n = Inr incoming"
    unfolding up_walk_asset_def by (auto split: sum.splits)
  let ?st1 = "take_dirty_down r incoming st"
  have inc: "\<forall>d \<in> set incoming. writable g d"
    using incoming_typed[OF 1 ty] by blast
  have p1: "P ?st1 = P st" using ok r inc by (rule ty_take_dirty_down)
  have t1: "types_as g ?st1" using types_traversal ty by (rule tr_take_dirty_down)
  from run 1 consider (clean) "st' = ?st1"
    | (visit) deps e st2 where "outgoing_dependencies (assetGraph ?st1) outgoing = Inr deps"
        "visit_up env r incoming deps ?st1 = Inr (e, st2)" "st' = record_errors r e st2"
    unfolding up_walk_asset_def Let_def by (auto split: sum.splits if_splits)
  then show ?thesis
  proof cases
    case clean
    with p1 show ?thesis by simp
  next
    case visit
    have out: "\<forall>d \<in> set deps. writable g d"
      using outgoing_typed[OF visit(1) t1] by blast
    from ty_visit_up[OF ok r inc out visit(2)] ty_record_errors[OF ok r] visit(3) p1
    show ?thesis by simp
  qed
qed

lemma ty_up_for_children:
  assumes ok: "typed_writes_ok g P"
    and w: "\<And>c vis dd s vis' dd' s'. w c (vis, dd, s) = Inr (vis', dd', s') \<Longrightarrow> types_as g s
              \<Longrightarrow> P s' = P s \<and> types_as g s'"
    and r: "ty = asset \<longrightarrow> writable g r"
  shows "up_for_children w r ty children (vis, dd, st) = Inr (vis', dd', st') \<Longrightarrow> types_as g st
           \<Longrightarrow> P st' = P st \<and> types_as g st'"
proof (induction children arbitrary: vis dd st)
  case Nil
  then show ?case by simp
next
  case (Cons c rest)
  show ?case
  proof (cases "c \<in> vis")
    case True
    with Cons show ?thesis by simp
  next
    case False
    let ?next = "\<lambda>st1. (if ty = asset \<and> usedSymbolsUpDirtyUp (deref (assetGraph st1) c)
                 then modify c (\<lambda>n. n\<lparr>usedSymbolsUpDirtyUp := False\<rparr>)
                        (modify r (\<lambda>n. n\<lparr>usedSymbolsUpDirty := True\<rparr>) st1)
                 else st1)"
    from False Cons.prems(1) obtain vis1 dd1 st1 child where
      1: "w c (insert c vis, dd, st) = Inr (vis1, dd1, st1)"
      and 3: "getNode (assetGraph st1) c = Some child"
      and 4: "ty = asset \<longrightarrow> node_type child = dependency"
      and 2: "up_for_children w r ty rest (vis1, dd1, ?next st1) = Inr (vis', dd', st')"
      by (auto simp: deref_def split: sum.splits option.splits if_splits)
    from w[OF 1 Cons.prems(2)] have p1: "P st1 = P st" and t1: "types_as g st1" by simp_all
    have pn: "P (?next st1) = P st1"
    proof (cases "ty = asset")
      case True
      with r have rw: "writable g r" by simp
      from True 4 t1 3 have cw: "writable g c" by (auto intro: types_writable)
      show ?thesis by (simp add: ty_modify[OF ok rw] ty_modify[OF ok cw] frame_of_def)
    next
      case False
      then show ?thesis by simp
    qed
    have tn: "types_as g (?next st1)"
      using t1 by (simp add: types_modify)
    from Cons.IH[OF 2 tn] pn p1 show ?thesis by simp
  qed
qed

lemma ty_up_walk:
  assumes ok: "typed_writes_ok g P"
  shows "up_walk fuel env (visit_up env) r (vs, dd, st) = Inr (vs', dd', st') \<Longrightarrow> types_as g st
           \<Longrightarrow> P st' = P st \<and> types_as g st'"
proof (induction fuel arbitrary: r vs dd st vs' dd' st')
  case 0
  then show ?case by simp
next
  case (Suc fuel)
  from Suc.prems(1) obtain n outgoing v1 d1 s1 where
    1: "getNode (assetGraph st) r = Some n"
    and 2: "up_for_children (up_walk fuel env (visit_up env)) r (node_type n) outgoing (vs, dd, st)
              = Inr (v1, d1, s1)"
    and 3: "(node_type n = asset \<and> up_walk_asset env (visit_up env) r n outgoing s1 = Inr st')
            \<or> (node_type n \<noteq> asset \<and> st' = s1)"
    by (auto split: sum.splits option.splits if_splits)
  have rw: "node_type n = asset \<longrightarrow> writable g r"
    using Suc.prems(2) 1 by (auto intro: types_writable)
  have W: "P s' = P s \<and> types_as g s'"
    if "up_walk fuel env (visit_up env) c (vis, dd, s) = Inr (vis', dd', s')" "types_as g s"
    for c vis dd s vis' dd' s'
    using that by (rule Suc.IH)
  have c: "P s1 = P st \<and> types_as g s1"
    using ty_up_for_children[OF ok W rw 2 Suc.prems(2)] .
  have t: "types_as g st'"
    using types_traversal Suc.prems(1,2) by (rule tr_up_walk)
  from 3 show ?case
  proof
    assume a: "node_type n = asset \<and> up_walk_asset env (visit_up env) r n outgoing s1 = Inr st'"
    from c have "types_as g s1" by simp
    moreover from a rw have "writable g r" by simp
    moreover from a have "up_walk_asset env (visit_up env) r n outgoing s1 = Inr st'" by simp
    ultimately have "P st' = P s1" by (rule ty_up_walk_asset[OF ok])
    with c t show ?thesis by simp
  next
    assume "node_type n \<noteq> asset \<and> st' = s1"
    with c show ?thesis by simp
  qed
qed

lemma ty_up_step_asset:
  assumes ok: "typed_writes_ok g P" and ty: "types_as g st" and r: "writable g r"
    and run: "up_step_asset env (visit_up env) r n queue st = Inr (queue', st')"
  shows "P st' = P st"
proof -
  from run obtain incoming where
    1: "incoming_dependencies env (assetGraph st) n = Inr incoming"
    unfolding up_step_asset_def by (auto split: sum.splits)
  let ?st1 = "take_dirty_down r incoming st"
  have inc: "\<forall>d \<in> set incoming. writable g d"
    using incoming_typed[OF 1 ty] by blast
  have p1: "P ?st1 = P st" using ok r inc by (rule ty_take_dirty_down)
  have t1: "types_as g ?st1" using types_traversal ty by (rule tr_take_dirty_down)
  from run 1 obtain ids outgoing where
    2: "outgoing_dependencies (assetGraph ?st1) ids = Inr outgoing"
    and 3: "st' = take_dirty_up r outgoing ?st1
            \<or> (\<exists>e st3. visit_up env r incoming outgoing (take_dirty_up r outgoing ?st1)
                             = Inr (e, st3) \<and> st' = record_errors r e st3)"
    unfolding up_step_asset_def Let_def by (auto split: sum.splits if_splits)
  let ?st2 = "take_dirty_up r outgoing ?st1"
  have out: "\<forall>d \<in> set outgoing. writable g d"
    using outgoing_typed[OF 2 t1] by blast
  have p2: "P ?st2 = P ?st1" using ok r out by (rule ty_take_dirty_up)
  from 3 consider (clean) "st' = ?st2"
    | (visit) e st3 where "visit_up env r incoming outgoing ?st2 = Inr (e, st3)"
        "st' = record_errors r e st3"
    by blast
  then show ?thesis
  proof cases
    case clean
    with p1 p2 show ?thesis by simp
  next
    case visit
    from ty_visit_up[OF ok r inc out visit(1)] ty_record_errors[OF ok r] visit(2) p1 p2
    show ?thesis by simp
  qed
qed

lemma ty_up_step:
  assumes ok: "typed_writes_ok g P" and ty: "types_as g st"
    and run: "up_step env (visit_up env) queue st = Inr (queue', st')"
  shows "P st' = P st"
proof -
  from run consider (same) "st' = st"
    | (asset) r n q1 where "getNode (assetGraph st) r = Some n" "node_type n = asset"
        "up_step_asset env (visit_up env) r n q1 st = Inr (queue', st')"
    unfolding up_step_def
    by (auto split: sum.splits option.splits if_splits list.splits)
  then show ?thesis
  proof cases
    case same
    then show ?thesis by simp
  next
    case asset
    from ty asset(1,2) have "writable g r" by (auto intro: types_writable)
    from ty_up_step_asset[OF ok ty this asset(3)] show ?thesis .
  qed
qed

lemma ty_up_loop:
  assumes ok: "typed_writes_ok g P"
  shows "up_loop fuel env (visit_up env) queue st = Inr st' \<Longrightarrow> types_as g st \<Longrightarrow> P st' = P st"
proof (induction fuel arbitrary: queue st)
  case 0
  then show ?case by (cases queue) auto
next
  case (Suc fuel)
  show ?case
  proof (cases queue)
    case Nil
    with Suc.prems show ?thesis by simp
  next
    case (Cons q qs)
    with Suc.prems obtain queue' st1 where
      1: "up_step env (visit_up env) queue st = Inr (queue', st1)"
      and 2: "up_loop fuel env (visit_up env) queue' st1 = Inr st'"
      by (auto split: sum.splits)
    have t1: "types_as g st1"
      using types_traversal 1 Suc.prems(2) by (rule tr_up_step)
    from Suc.IH[OF 2 t1] ty_up_step[OF ok Suc.prems(2) 1] show ?thesis by simp
  qed
qed

lemma ty_propagateSymbolsUp:
  assumes ok: "typed_writes_ok g P" and ty: "types_as g st"
    and run: "propagateSymbolsUp fuel env changed cd prev (visit_up env) st = Inr st'"
  shows "P st' = P st"
proof -
  let ?st0 = "st\<lparr>errors := prune_errors (assetGraph st) prev\<rparr>"
  have p0: "P ?st0 = P st" by (rule ty_errors[OF ok])
  have t0: "types_as g ?st0" using ty by (simp add: types_as_def)
  from run consider
    (queue) q0 where "up_loop fuel env (visit_up env) q0 ?st0 = Inr st'"
  | (full) rt vs dd st1 where
      "up_walk fuel env (visit_up env) rt ({rt}, [], ?st0) = Inr (vs, dd, st1)"
      "up_loop fuel env (visit_up env) dd st1 = Inr st'"
    unfolding propagateSymbolsUp_def Let_def
    by (auto split: sum.splits if_splits option.splits)
  then show ?thesis
  proof cases
    case queue
    from ty_up_loop[OF ok queue t0] p0 show ?thesis by simp
  next
    case full
    from ty_up_walk[OF ok full(1) t0] have "P st1 = P ?st0" "types_as g st1" by simp_all
    with ty_up_loop[OF ok full(2)] p0 show ?thesis by simp
  qed
qed

lemma ty_sort:
  assumes ok: "typed_writes_ok g P" and cd: "\<forall>d \<in> set (changedDeps st). writable g d"
  shows "P (sort_changedDeps st) = P st"
  unfolding sort_changedDeps_def
  by (rule fold_pres_mem) (use cd in \<open>simp add: ty_modify[OF ok] frame_of_def\<close>)

lemma deref_modify_other:
  "r' \<noteq> r \<Longrightarrow> deref (assetGraph (modify r f st)) r' = deref (assetGraph st) r'"
  by (simp add: modify_def deref_modify_node)

lemma group_rest_type:
  assumes "group_rest a = group_rest b"
  shows "node_type a = node_type b"
  using arg_cong[OF assms, of node_type] by (simp add: group_rest_def)

lemma typed_view_modify:
  assumes "\<And>n. F (f n) = F n"
    and "\<And>st'. fst (typed_view g st') r = F (deref (assetGraph st') r)"
  shows "typed_view g (modify r f st) = typed_view g st"
proof -
  have "fst (typed_view g (modify r f st)) r' = fst (typed_view g st) r'" for r'
  proof (cases "r' = r")
    case True
    have "F (deref (assetGraph (modify r f st)) r) = F (deref (assetGraph st) r)"
      using assms(1) by (rule field_modify)
    with True show ?thesis by (simp only: assms(2))
  next
    case False
    then show ?thesis by (simp add: typed_view_def deref_modify_other)
  qed
  moreover have "snd (typed_view g (modify r f st)) = snd (typed_view g st)"
    by (simp add: typed_view_def modify_def)
  ultimately show ?thesis by (simp add: prod_eq_iff fun_eq_iff)
qed

lemma typed_view_ok: "typed_writes_ok g (typed_view g)"
  unfolding typed_writes_ok_def
proof (intro conjI allI impI)
  fix r f and st :: pstate
  assume w: "writable g r" and f: "\<forall>n. frame_of (f n) = frame_of n"
  show "typed_view g (modify r f st) = typed_view g st"
    by (rule typed_view_modify[where F = frame_of]) (simp_all add: f typed_view_def w)
next
  fix r f and st :: pstate
  assume w: "node_type (deref g r) = asset_group" and f: "\<forall>n. group_rest (f n) = group_rest n"
  show "typed_view g (modify r f st) = typed_view g st"
    by (rule typed_view_modify[where F = group_rest])
      (simp_all add: f typed_view_def w writable_def)
next
  fix d and st :: pstate
  assume "writable g d"
  then show "typed_view g (st\<lparr>changedDeps := set_add d (changedDeps st)\<rparr>) = typed_view g st"
    by (simp add: typed_view_def set_add_def cong: if_cong)
qed (simp_all add: typed_view_def cong: if_cong)

lemma typed_view_frame:
  assumes "typed_view g st = typed_view g st0" and "assetGraph st0 = g"
  shows "typed_frame (deref (assetGraph st) r) = typed_frame (deref g r)"
proof -
  from assms have e: "fst (typed_view g st) r = fst (typed_view g st0) r" by simp
  show ?thesis
  proof (cases "writable g r")
    case True
    with e assms(2) have f: "frame_of (deref (assetGraph st) r) = frame_of (deref g r)"
      by (simp add: typed_view_def)
    from frame_of_type[OF f] True f show ?thesis
      by (simp add: typed_frame_def writable_def)
  next
    case False
    show ?thesis
    proof (cases "node_type (deref g r) = asset_group")
      case True
      with e assms(2) False
      have f: "group_rest (deref (assetGraph st) r) = group_rest (deref g r)"
        by (simp add: typed_view_def)
      from group_rest_type[OF f] True f show ?thesis
        by (simp add: typed_frame_def)
    next
      case g: False
      with e assms(2) False have "deref (assetGraph st) r = deref g r"
        by (simp add: typed_view_def)
      then show ?thesis by simp
    qed
  qed
qed

lemma propagateSymbols_typed_view:
  assumes "propagateSymbols fuel env g changedAssetsPropagation assetGroupsWithRemovedParents
             previousErrors = Inr st"
  shows "typed_view g st
           = typed_view g \<lparr>assetGraph = g, changedDeps = [], changedDepsUsedSymbolsUpDirtyDown = [],
                           errors = [], upVisits = []\<rparr>"
proof -
  let ?init = "\<lparr>assetGraph = g, changedDeps = [], changedDepsUsedSymbolsUpDirtyDown = [],
                 errors = [], upVisits = []\<rparr>"
  from assms obtain ids st1 st2 where
    1: "propagateSymbolsDown fuel env ids assetGroupsWithRemovedParents (visit_down env) ?init
          = Inr st1"
    and 2: "propagateSymbolsUp fuel env ids (changedDepsUsedSymbolsUpDirtyDown st1)
              previousErrors (visit_up env) st1 = Inr st2"
    and 3: "st = sort_changedDeps st2"
    by (rule propagateSymbols_phases)
  have t0: "types_as g ?init" by (simp add: types_as_def)
  have p1: "typed_view g st1 = typed_view g ?init"
    using typed_view_ok t0 1 by (rule ty_propagateSymbolsDown)
  have t1: "types_as g st1"
    using down_phase_view[OF types_down_view 1] t0 by simp
  have p2: "typed_view g st2 = typed_view g st1"
    using typed_view_ok t1 2 by (rule ty_propagateSymbolsUp)
  from p1 p2 have "filter (\<lambda>d. \<not> writable g d) (changedDeps st2) = []"
    by (simp add: typed_view_def)
  then have cd: "\<forall>d \<in> set (changedDeps st2). writable g d"
    by (simp add: filter_empty_conv)
  have "typed_view g st = typed_view g st2"
    unfolding 3 using typed_view_ok cd by (rule ty_sort)
  with p1 p2 show ?thesis by simp
qed

text \<open>
  C8, as stated, fails: the down traversal also writes \<open>usedSymbolsDownDirty\<close> on asset
  groups. In \<open>group_graph\<close> node 4 is an asset group with the flag set; after the
  propagation the flag is cleared.
\<close>

theorem propagation_writes_asset_group:
  "(case group_run of
      Inl e \<Rightarrow> False
    | Inr st \<Rightarrow>
        node_type (deref group_graph 4) = asset_group
        \<and> usedSymbolsDownDirty (deref group_graph 4)
        \<and> \<not> usedSymbolsDownDirty (deref (assetGraph st) 4)
        \<and> deref (assetGraph st) 4 \<noteq> deref group_graph 4)"
  by code_simp

text \<open>
  C8, amended. When \<open>propagateSymbols\<close> returns, the graph has the node ids it had, in
  their order, each with the type, the content key and the value of its node, and the
  same edges, root, counter of node ids and index of content keys. And every node is as
  it was, except for the symbol sets (\<open>usedSymbols\<close>, \<open>usedSymbolsDown\<close>,
  \<open>usedSymbolsUp\<close>), the dirty flags and \<open>excluded\<close> of an asset or a dependency, and
  for \<open>usedSymbolsDownDirty\<close> of an asset group: a node of any other type is left
  untouched.
\<close>

theorem propagateSymbols_typed_frame:
  assumes "propagateSymbols fuel env g changedAssetsPropagation assetGroupsWithRemovedParents
             previousErrors = Inr st"
  shows "structure_of (assetGraph st) = structure_of g
         \<and> (\<forall>r. typed_frame (deref (assetGraph st) r) = typed_frame (deref g r))"
proof -
  have s: "structure_of (assetGraph st) = structure_of g"
    using assms by (rule propagateSymbols_structure)
  have "typed_frame (deref (assetGraph st) r) = typed_frame (deref g r)" for r
    using propagateSymbols_typed_view[OF assms] by (rule typed_view_frame) simp
  with s show ?thesis by simp
qed

theorem propagateSymbols_typed_frame_witness:
  "\<not> isl group_run
   \<and> structure_of (assetGraph (projr group_run)) = structure_of group_graph
   \<and> typed_frame (deref (assetGraph (projr group_run)) 4) = typed_frame (deref group_graph 4)
   \<and> typed_frame (deref (assetGraph (projr group_run)) 0) = deref group_graph 0"
proof -
  have a: "\<not> isl group_run" by code_simp
  then have b: "propagateSymbols 50 reexport_env group_graph [''a'', ''b''] [] None
      = Inr (projr group_run)"
    by (simp add: group_run_def)
  from propagateSymbols_typed_frame [OF b]
  have c: "structure_of (assetGraph (projr group_run)) = structure_of group_graph"
    and d: "typed_frame (deref (assetGraph (projr group_run)) r) = typed_frame (deref group_graph r)"
    for r
    by simp_all
  have e: "typed_frame (deref group_graph 0) = deref group_graph 0" by code_simp
  from d [of 0] have f: "typed_frame (deref (assetGraph (projr group_run)) 0) = deref group_graph 0"
    by (simp only: e)
  from a c d [of 4] f show ?thesis by blast
qed

end
